theory Spec2Isabelle
  imports Main "HOL-Library.Word"
begin

unbundle bit_operations_syntax

section \<open>Machine integers\<close>

text \<open>
  The C code computes on \<^verbatim>\<open>int64_t\<close>, \<^verbatim>\<open>long\<close> and \<^verbatim>\<open>int\<close>. Their values are modelled
  as \<^typ>\<open>int\<close>, and an arithmetic result that depends on the input data is passed through
  the two's complement wrap-around of the width of the variable that stores it. Counters
  that only count fields, alleles or list entries of one line (\<^verbatim>\<open>id\<close>, \<^verbatim>\<open>alcnt\<close>, \<^verbatim>\<open>d\<close>,
  \<^verbatim>\<open>pos\<close>, \<^verbatim>\<open>lenpos\<close>) are left unwrapped.
\<close>

definition wrap64 :: "int \<Rightarrow> int" where
  "wrap64 x = (x + 2 ^ 63) mod 2 ^ 64 - 2 ^ 63"

definition wrap32 :: "int \<Rightarrow> int" where
  "wrap32 x = (x + 2 ^ 31) mod 2 ^ 32 - 2 ^ 31"


section \<open>The C library functions the code calls\<close>

text \<open>
  A character buffer is a \<^typ>\<open>char list\<close>, a pointer into it is an index. The functions
  below take the bytes from the pointer on (\<open>drop p buf\<close>) and stop at the first NUL, as
  the C functions do.
\<close>

definition NUL :: char where
  "NUL = CHR 0x00"

definition TAB :: char where
  "TAB = CHR 0x09"

definition cstr :: "char list \<Rightarrow> string" where
  "cstr bytes = takeWhile (\<lambda>c. c \<noteq> NUL) bytes"

definition isspace :: "char \<Rightarrow> bool" where
  "isspace c = (c = CHR '' '' \<or> c = CHR 0x09 \<or> c = CHR 0x0A \<or> c = CHR 0x0B
                  \<or> c = CHR 0x0C \<or> c = CHR 0x0D)"

definition isdigit_c :: "char \<Rightarrow> bool" where
  "isdigit_c c = (48 \<le> (of_char c :: nat) \<and> (of_char c :: nat) \<le> 57)"

definition toupper_c :: "char \<Rightarrow> char" where
  "toupper_c c =
     (let n = (of_char c :: nat) in if 97 \<le> n \<and> n \<le> 122 then char_of (n - 32) else c)"

definition digit_val :: "char \<Rightarrow> nat option" where
  "digit_val c =
     (let n = (of_char c :: nat) in
      if 48 \<le> n \<and> n \<le> 57 then Some (n - 48)
      else if 97 \<le> n \<and> n \<le> 122 then Some (n - 87)
      else if 65 \<le> n \<and> n \<le> 90 then Some (n - 55)
      else None)"

text \<open>The digits of a number in the given base: the value read and how many characters.\<close>

fun digits :: "nat \<Rightarrow> string \<Rightarrow> int \<Rightarrow> int \<times> nat" where
  "digits base [] acc = (acc, 0)"
| "digits base (c # cs) acc =
     (case digit_val c of
        None \<Rightarrow> (acc, 0)
      | Some d \<Rightarrow>
          if d < base then (let r = digits base cs (acc * int base + int d) in (fst r, Suc (snd r)))
          else (acc, 0))"

text \<open>On overflow \<^verbatim>\<open>strtoll\<close> returns \<^verbatim>\<open>LLONG_MAX\<close> or \<^verbatim>\<open>LLONG_MIN\<close>.\<close>

definition saturate :: "bool \<Rightarrow> int \<Rightarrow> int" where
  "saturate neg v =
     (if neg then (if v > 2 ^ 63 then - (2 ^ 63) else - v)
      else (if v > 2 ^ 63 - 1 then 2 ^ 63 - 1 else v))"

definition hex_prefix :: "string \<Rightarrow> bool" where
  "hex_prefix s =
     (case s of
        c0 # c1 # _ \<Rightarrow> c0 = CHR ''0'' \<and> (c1 = CHR ''x'' \<or> c1 = CHR ''X'')
      | _ \<Rightarrow> False)"

text \<open>
  \<^verbatim>\<open>strtoll(s, &end, base)\<close> for base 0 and base 10: leading white space, an optional sign,
  with base 0 the prefix \<^verbatim>\<open>0x\<close> (hexadecimal) or \<^verbatim>\<open>0\<close> (octal), then the digits. The result
  is the value and the number of characters consumed (\<open>end - s\<close>); no digits means no
  conversion: value 0 and 0 characters (after \<^verbatim>\<open>0x\<close> with no hexadecimal digit, the \<^verbatim>\<open>0\<close> alone
  is the number). \<^verbatim>\<open>long\<close> is 64 bits wide here, so \<^verbatim>\<open>strtol\<close> is the same function, and
  \<^verbatim>\<open>atoll(s)\<close> is \<^verbatim>\<open>strtoll(s, NULL, 10)\<close>.
\<close>

definition strtoll :: "nat \<Rightarrow> char list \<Rightarrow> int \<times> nat" where
  "strtoll base s =
     (let ws = length (takeWhile isspace s);
          s1 = drop ws s;
          neg = (case s1 of c # _ \<Rightarrow> c = CHR ''-'' | [] \<Rightarrow> False);
          sg = (case s1 of c # _ \<Rightarrow> if c = CHR ''-'' \<or> c = CHR ''+'' then 1 else 0 | [] \<Rightarrow> 0);
          s2 = drop sg s1;
          hex = (base = 0 \<and> hex_prefix s2);
          b = (if base \<noteq> 0 then base
               else if hex then 16
               else if (case s2 of c # _ \<Rightarrow> c = CHR ''0'' | [] \<Rightarrow> False) then 8
               else 10);
          pre = (if hex then 2 else 0);
          r = digits b (drop pre s2) 0
      in if snd r = 0 then (if hex then (0, ws + sg + 1) else (0, 0))
         else (saturate neg (fst r), ws + sg + pre + snd r))"

definition atoll :: "char list \<Rightarrow> int" where
  "atoll s = fst (strtoll 10 s)"

definition llabs :: "int \<Rightarrow> int" where
  "llabs x = wrap64 \<bar>x\<bar>"

text \<open>\<^verbatim>\<open>strchr\<close> and \<^verbatim>\<open>strstr\<close>: the offset of the first occurrence, if there is one.\<close>

fun strchr :: "char list \<Rightarrow> char \<Rightarrow> nat option" where
  "strchr [] c = None"
| "strchr (x # xs) c =
     (if x = c then Some 0 else if x = NUL then None else map_option Suc (strchr xs c))"

fun has_prefix :: "char list \<Rightarrow> char list \<Rightarrow> bool" where
  "has_prefix [] s = True"
| "has_prefix (p # ps) [] = False"
| "has_prefix (p # ps) (x # xs) = (p = x \<and> has_prefix ps xs)"

fun strstr :: "char list \<Rightarrow> string \<Rightarrow> nat option" where
  "strstr [] pat = (if pat = [] then Some 0 else None)"
| "strstr (x # xs) pat =
     (if has_prefix pat (x # xs) then Some 0
      else if x = NUL then None
      else map_option Suc (strstr xs pat))"

text \<open>The same on a buffer and a pointer: the result is a pointer again.\<close>

definition c_strchr :: "char list \<Rightarrow> nat \<Rightarrow> char \<Rightarrow> nat option" where
  "c_strchr buf p c = map_option (\<lambda>k. p + k) (strchr (drop p buf) c)"

definition c_strstr :: "char list \<Rightarrow> nat \<Rightarrow> string \<Rightarrow> nat option" where
  "c_strstr buf p pat = map_option (\<lambda>k. p + k) (strstr (drop p buf) pat)"


section \<open>The record parser \<^verbatim>\<open>tbx_parse1\<close>\<close>

subsection \<open>Configuration and presets\<close>

text \<open>
  The preset tags and the UCSC flag are macros of \<^verbatim>\<open>htslib/tbx.h\<close>, which is not among
  the sources; they are given the values of that header (the spec gives GENERIC as 0, the
  tag in the low 16 bits and the flags above).
\<close>

definition TBX_GENERIC :: int where
  "TBX_GENERIC = 0"

definition TBX_SAM :: int where
  "TBX_SAM = 1"

definition TBX_VCF :: int where
  "TBX_VCF = 2"

definition TBX_GAF :: int where
  "TBX_GAF = 3"

definition TBX_UCSC :: int where
  "TBX_UCSC = 0x10000"

record tbx_conf_t =
  preset :: int
  sc :: int
  bc :: int
  ec :: int
  meta_char :: int
  line_skip :: int

definition tbx_conf_gff :: tbx_conf_t where
  "tbx_conf_gff = \<lparr>preset = 0, sc = 1, bc = 4, ec = 5, meta_char = 35, line_skip = 0\<rparr>"

definition tbx_conf_bed :: tbx_conf_t where
  "tbx_conf_bed = \<lparr>preset = TBX_UCSC, sc = 1, bc = 2, ec = 3, meta_char = 35, line_skip = 0\<rparr>"

definition tbx_conf_psltbl :: tbx_conf_t where
  "tbx_conf_psltbl = \<lparr>preset = TBX_UCSC, sc = 15, bc = 17, ec = 18, meta_char = 35, line_skip = 0\<rparr>"

definition tbx_conf_sam :: tbx_conf_t where
  "tbx_conf_sam = \<lparr>preset = TBX_SAM, sc = 3, bc = 4, ec = 0, meta_char = 64, line_skip = 0\<rparr>"

definition tbx_conf_vcf :: tbx_conf_t where
  "tbx_conf_vcf = \<lparr>preset = TBX_VCF, sc = 1, bc = 2, ec = 0, meta_char = 35, line_skip = 0\<rparr>"

definition tbx_conf_gaf :: tbx_conf_t where
  "tbx_conf_gaf = \<lparr>preset = TBX_GAF, sc = 1, bc = 6, ec = 0, meta_char = 35, line_skip = 0\<rparr>"

definition preset_tag :: "tbx_conf_t \<Rightarrow> int" where
  "preset_tag conf = preset conf AND 0xffff"

subsection \<open>The state of one call\<close>

text \<open>
  \<open>Warn_coordinate\<close> and \<open>Warn_info_end\<close> are the two calls of \<^verbatim>\<open>hts_log_warning\<close>; the
  log is the sequence of these calls. \<open>reported\<close> is the function's static latch; it and
  the log outlive the call.
\<close>

datatype warning = Warn_coordinate | Warn_info_end int

text \<open>
  The caller's buffer \<open>line\<close>, the output \<open>intv\<close> (\<open>ss\<close> and \<open>se\<close> are pointers into the
  line, \<open>None\<close> is the null pointer), and the local variables of \<^verbatim>\<open>tbx_parse1\<close>.
  \<open>field_b\<close> and \<open>field_id\<close> are the locals \<^verbatim>\<open>b\<close> and \<^verbatim>\<open>id\<close>.
\<close>

record parse_state =
  line :: "char list"
  intv_ss :: "nat option"
  intv_se :: "nat option"
  intv_beg :: int
  intv_end :: int
  field_b :: nat
  field_id :: int
  getlen :: bool
  alcnt :: int
  use_svlen :: bool
  lenpos :: int
  svlenals :: "nat \<Rightarrow> 8 word"
  reflen :: int
  svlen :: int
  fmtlen :: int
  reported :: bool
  warnings :: "warning list"

text \<open>How the body of the loop over the line is left.\<close>

datatype 'a flow = Continue 'a | Break 'a | Return int 'a

fun flow_state :: "'a flow \<Rightarrow> 'a" where
  "flow_state (Continue st) = st"
| "flow_state (Break st) = st"
| "flow_state (Return r st) = st"

subsection \<open>The begin column\<close>

text \<open>GAF (lines 168-185): the smallest and the largest node id of the path.\<close>

function gaf_loop :: "char list \<Rightarrow> nat \<Rightarrow> nat \<Rightarrow> int \<times> int \<Rightarrow> int \<times> int" where
  "gaf_loop ln i s (lo, hi) =
     (if s < i then
        (let r = strtoll 0 (drop s ln);
             nodeid = fst r;
             t = s + snd r
         in gaf_loop ln i (t + 1)
              (if lo = - 1 then (nodeid, nodeid)
               else (if nodeid < lo then nodeid else lo, if nodeid > hi then nodeid else hi)))
      else (lo, hi))"
  by pat_completeness auto
termination
  by (relation "measure (\<lambda>(ln, i, s, be). i - s)") auto

declare gaf_loop.simps [simp del]

definition gaf_column :: "nat \<Rightarrow> parse_state \<Rightarrow> parse_state" where
  "gaf_column i st =
     (let be = gaf_loop (line st) i (field_b st + 1) (intv_beg st, intv_end st)
      in st\<lparr>intv_beg := fst be, intv_end := snd be\<rparr>)"

text \<open>Every other preset (lines 187-204).\<close>

definition begin_column :: "tbx_conf_t \<Rightarrow> parse_state \<Rightarrow> parse_state flow" where
  "begin_column conf st =
     (let r = strtoll 0 (drop (field_b st) (line st));
          s = field_b st + snd r;
          st = st\<lparr>intv_beg := fst r\<rparr>;
          st = (if bc conf \<le> ec conf then st\<lparr>intv_end := intv_beg st\<rparr> else st)
      in if s = field_b st then Return (- 1) st
         else
           (let st = (if preset conf AND TBX_UCSC = 0
                      then st\<lparr>intv_beg := wrap64 (intv_beg st - 1)\<rparr>
                      else if bc conf \<le> ec conf then st\<lparr>intv_end := wrap64 (intv_end st + 1)\<rparr>
                      else st);
                st = (if intv_beg st < 0
                      then st\<lparr>warnings := warnings st @ [Warn_coordinate], intv_beg := 0\<rparr>
                      else st);
                st = (if intv_end st < 1 then st\<lparr>intv_end := 1\<rparr> else st)
            in Continue st))"

subsection \<open>The end column of the generic preset and the CIGAR of SAM\<close>

definition end_column :: "parse_state \<Rightarrow> parse_state flow" where
  "end_column st =
     (let r = strtoll 0 (drop (field_b st) (line st));
          st = st\<lparr>intv_end := fst r\<rparr>
      in if snd r = 0 then Return (- 1) st else Continue st)"

function cigar_loop :: "char list \<Rightarrow> nat \<Rightarrow> nat \<Rightarrow> int \<Rightarrow> int" where
  "cigar_loop ln i s l =
     (if s < i then
        (let r = strtoll 10 (drop s ln);
             x = fst r;
             t = s + snd r;
             op = toupper_c (ln ! t);
             l = (if op = CHR ''M'' \<or> op = CHR ''D'' \<or> op = CHR ''N'' then wrap32 (l + x) else l)
         in cigar_loop ln i (t + 1) l)
      else l)"
  by pat_completeness auto
termination
  by (relation "measure (\<lambda>(ln, i, s, l). i - s)") auto

declare cigar_loop.simps [simp del]

definition cigar_column :: "nat \<Rightarrow> parse_state \<Rightarrow> parse_state" where
  "cigar_column i st =
     (let l = cigar_loop (line st) i (field_b st) 0;
          l = (if l = 0 then 1 else l)
      in st\<lparr>intv_end := wrap64 (intv_beg st + l)\<rparr>)"

subsection \<open>The columns of VCF\<close>

text \<open>REF (lines 227-230).\<close>

definition ref_column :: "nat \<Rightarrow> parse_state \<Rightarrow> parse_state" where
  "ref_column i st =
     (let st = (if field_b st < i
                then st\<lparr>intv_end := wrap64 (intv_beg st + int (i - field_b st))\<rparr> else st);
          st = st\<lparr>alcnt := alcnt st + 1\<rparr>
      in st\<lparr>reflen := int (i - field_b st)\<rparr>)"

text \<open>
  ALT (lines 231-259). \<open>alt_step\<close> is the body of the do-while loop: it ends the allele at
  its comma, looks at it, and puts the comma back. \<^verbatim>\<open>svlen_on_ref_for_vcf_alt\<close> is a
  function of \<^verbatim>\<open>vcf.c\<close>, which is not among the sources: it is the parameter \<open>svl\<close>.
\<close>

definition alt_examine :: "(string \<Rightarrow> bool) \<Rightarrow> string \<Rightarrow> int \<Rightarrow> parse_state \<Rightarrow> parse_state" where
  "alt_examine svl a lastbyte st =
     (if svl a then
        st\<lparr>svlenals := (svlenals st)
             (nat lastbyte := svlenals st (nat lastbyte)
                                OR push_bit (nat ((alcnt st - 1) AND 7)) 1),
           use_svlen := True\<rparr>
      else if a = ''<*>'' \<or> a = ''<NON_REF>'' then st\<lparr>getlen := True\<rparr>
      else st)"

definition alt_step ::
  "(string \<Rightarrow> bool) \<Rightarrow> nat \<Rightarrow> int \<Rightarrow> parse_state \<Rightarrow> nat option \<times> int \<times> parse_state" where
  "alt_step svl s lastbyte st =
     (let t = c_strchr (line st) s (CHR '','');
          fresh = (drop_bit 3 (alcnt st) \<noteq> lastbyte);
          lastbyte = (if fresh then drop_bit 3 (alcnt st) else lastbyte);
          st = (if fresh then st\<lparr>svlenals := (svlenals st)(nat lastbyte := 0)\<rparr> else st);
          st = st\<lparr>alcnt := alcnt st + 1\<rparr>;
          st = (case t of Some k \<Rightarrow> st\<lparr>line := (line st)[k := NUL]\<rparr> | None \<Rightarrow> st);
          st = alt_examine svl (cstr (drop s (line st))) lastbyte st;
          st = (case t of Some k \<Rightarrow> st\<lparr>line := (line st)[k := CHR '','']\<rparr> | None \<Rightarrow> st)
      in (t, lastbyte, st))"

lemma alt_examine_alcnt: "alcnt (alt_examine svl a lastbyte st) = alcnt st"
  by (simp add: alt_examine_def)

lemma alt_step_alcnt: "alcnt (snd (snd (alt_step svl s lastbyte st))) = alcnt st + 1"
  by (simp add: alt_step_def Let_def alt_examine_alcnt split: option.splits)

lemma alt_step_alcnt_eq:
  "(t, lastbyte', st') = alt_step svl s lastbyte st \<Longrightarrow> alcnt st' = alcnt st + 1"
  using alt_step_alcnt [of svl s lastbyte st] by (metis snd_conv)

function alt_loop :: "(string \<Rightarrow> bool) \<Rightarrow> nat \<Rightarrow> int \<Rightarrow> parse_state \<Rightarrow> parse_state" where
  "alt_loop svl s lastbyte st =
     (case alt_step svl s lastbyte st of
        (t, lastbyte', st') \<Rightarrow>
          (case t of
             Some k \<Rightarrow> if alcnt st' < 65536 then alt_loop svl (k + 1) lastbyte' st' else st'
           | None \<Rightarrow> st'))"
  by pat_completeness auto
termination
  by (relation "measure (\<lambda>(svl, s, lastbyte, st). nat (65536 - alcnt st))")
    (auto dest!: alt_step_alcnt_eq)

declare alt_loop.simps [simp del]

definition alt_column :: "(string \<Rightarrow> bool) \<Rightarrow> nat \<Rightarrow> parse_state \<Rightarrow> parse_state" where
  "alt_column svl i st =
     (let c = line st ! i;
          st = st\<lparr>svlenals := (svlenals st)(0 := 0)\<rparr>;
          st = st\<lparr>line := (line st)[i := NUL]\<rparr>;
          st = alt_loop svl (field_b st) 0 st
      in st\<lparr>line := (line st)[i := c]\<rparr>)"

text \<open>
  INFO (lines 260-306). \<open>info_key\<close> is how the code finds \<^verbatim>\<open>END=\<close> and \<^verbatim>\<open>SVLEN=\<close>: the first
  occurrence of the key if it starts the column, else the first occurrence after a
  semicolon; the result points behind the \<^verbatim>\<open>=\<close>.
\<close>

definition info_key :: "char list \<Rightarrow> nat \<Rightarrow> string \<Rightarrow> nat option" where
  "info_key ln b key =
     (case c_strstr ln b key of
        None \<Rightarrow> None
      | Some s \<Rightarrow>
          if s = b then Some (s + length key)
          else map_option (\<lambda>s'. s' + (length key + 1)) (c_strstr ln b (CHR '';'' # key)))"

definition info_end :: "parse_state \<Rightarrow> parse_state" where
  "info_end st =
     (case info_key (line st) (field_b st) ''END='' of
        None \<Rightarrow> st
      | Some s \<Rightarrow>
          if line st ! s = CHR ''.'' then st
          else
            (let e = fst (strtoll 0 (drop s (line st))) in
             if e \<le> intv_beg st then
               (if \<not> reported st
                then st\<lparr>warnings := warnings st @ [Warn_info_end e], reported := True\<rparr>
                else st)
             else st\<lparr>intv_end := e\<rparr>))"

function svlen_loop :: "parse_state \<Rightarrow> nat option \<Rightarrow> int \<Rightarrow> int \<Rightarrow> int" where
  "svlen_loop st s d sv =
     (case s of
        None \<Rightarrow> sv
      | Some p \<Rightarrow>
          if d < alcnt st then
            (let t = c_strchr (line st) p (CHR '','');
                 tmp = (if use_svlen st
                           \<and> svlenals st (nat (drop_bit 3 d)) AND push_bit (nat (d AND 7)) 1 \<noteq> 0
                        then (let v = atoll (drop p (line st)) in if v < 0 then llabs v else v)
                        else 1)
             in svlen_loop st (map_option Suc t) (d + 1) (if sv < tmp then tmp else sv))
          else sv)"
  by pat_completeness auto
termination
  by (relation "measure (\<lambda>(st, s, d, sv). nat (alcnt st - d))") auto

declare svlen_loop.simps [simp del]

definition info_column :: "nat \<Rightarrow> parse_state \<Rightarrow> parse_state" where
  "info_column i st =
     (let c = line st ! i;
          st = st\<lparr>line := (line st)[i := NUL]\<rparr>;
          st = info_end st;
          st = st\<lparr>svlen := svlen_loop st (info_key (line st) (field_b st) ''SVLEN='') 1 (svlen st)\<rparr>
      in st\<lparr>line := (line st)[i := c]\<rparr>)"

text \<open>FORMAT (lines 307-332): the position of \<^verbatim>\<open>LEN\<close> among the keys.\<close>

lemma c_strchr_bounds: "c_strchr buf p c = Some t \<Longrightarrow> p \<le> t \<and> t < length buf"
proof -
  have "strchr xs c = Some k \<Longrightarrow> k < length xs" for xs k
    by (induction xs arbitrary: k) (auto split: if_splits)
  then show "c_strchr buf p c = Some t \<Longrightarrow> p \<le> t \<and> t < length buf"
    by (fastforce simp: c_strchr_def)
qed

function format_loop :: "nat \<Rightarrow> int \<Rightarrow> char list \<Rightarrow> int \<Rightarrow> char list \<times> int" where
  "format_loop s pos ln lp =
     (case c_strchr ln s (CHR '':'') of
        None \<Rightarrow> if cstr (drop s ln) = ''LEN'' then (ln, pos + 1) else (ln, lp)
      | Some t \<Rightarrow>
          (let ln1 = ln[t := NUL] in
           if cstr (drop s ln1) = ''LEN'' then (ln1[t := CHR '':''], pos + 1)
           else format_loop (t + 1) (pos + 1) (ln1[t := CHR '':'']) lp))"
  by pat_completeness auto
termination
  by (relation "measure (\<lambda>(s, pos, ln, lp). length ln - s)")
    (auto dest!: c_strchr_bounds)

declare format_loop.simps [simp del]

definition format_column :: "nat \<Rightarrow> parse_state \<Rightarrow> parse_state flow" where
  "format_column i st =
     (let c = line st ! i;
          st = st\<lparr>line := (line st)[i := NUL]\<rparr>;
          r = format_loop (field_b st) (- 1) (line st) (lenpos st);
          st = st\<lparr>line := fst r, lenpos := snd r\<rparr>;
          st = st\<lparr>line := (line st)[i := c]\<rparr>
      in if lenpos st = - 1 then Break st else Continue st)"

text \<open>A sample column (lines 333-351): the value at the position of \<^verbatim>\<open>LEN\<close>.\<close>

function sample_loop :: "char list \<Rightarrow> int \<Rightarrow> nat \<Rightarrow> int \<Rightarrow> int" where
  "sample_loop ln lp s d =
     (if d \<le> lp then
        (if d = lp then atoll (drop s ln)
         else (case c_strchr ln s (CHR '':'') of
                 Some t \<Rightarrow> sample_loop ln lp (t + 1) (d + 1)
               | None \<Rightarrow> 0))
      else 0)"
  by pat_completeness auto
termination
  by (relation "measure (\<lambda>(ln, lp, s, d). nat (lp + 1 - d))") auto

declare sample_loop.simps [simp del]

definition sample_column :: "nat \<Rightarrow> parse_state \<Rightarrow> parse_state" where
  "sample_column i st =
     (let c = line st ! i;
          st = st\<lparr>line := (line st)[i := NUL]\<rparr>;
          tmp = sample_loop (line st) (lenpos st) (field_b st) 0;
          st = st\<lparr>fmtlen := (if fmtlen st < tmp then tmp else fmtlen st)\<rparr>
      in st\<lparr>line := (line st)[i := c]\<rparr>)"

definition vcf_column :: "(string \<Rightarrow> bool) \<Rightarrow> nat \<Rightarrow> parse_state \<Rightarrow> parse_state flow" where
  "vcf_column svl i st =
     (let st = (if field_id st = 4 then ref_column i st else st)
      in if field_id st = 5 then Continue (alt_column svl i st)
         else if field_id st = 8 then Continue (info_column i st)
         else if getlen st \<and> field_id st = 9 then format_column i st
         else if field_id st > 9 \<and> getlen st \<and> lenpos st \<noteq> - 1 then Continue (sample_column i st)
         else Continue st)"

subsection \<open>The loop over the line\<close>

text \<open>The body of the loop at a tab or NUL at index \<open>i\<close> (lines 163-353).\<close>

definition handle_field ::
  "(string \<Rightarrow> bool) \<Rightarrow> tbx_conf_t \<Rightarrow> nat \<Rightarrow> parse_state \<Rightarrow> parse_state flow" where
  "handle_field svl conf i st =
     (if field_id st = sc conf then
        Continue (st\<lparr>intv_ss := Some (field_b st), intv_se := Some i\<rparr>)
      else if field_id st = bc conf then
        (if preset_tag conf = TBX_GAF then Continue (gaf_column i st)
         else begin_column conf st)
      else if preset_tag conf = TBX_GENERIC then
        (if field_id st = ec conf then end_column st else Continue st)
      else if preset_tag conf = TBX_SAM then
        (if field_id st = 6 then Continue (cigar_column i st) else Continue st)
      else if preset_tag conf = TBX_VCF then vcf_column svl i st
      else Continue st)"

fun parse_loop ::
  "(string \<Rightarrow> bool) \<Rightarrow> tbx_conf_t \<Rightarrow> nat list \<Rightarrow> parse_state \<Rightarrow> parse_state flow" where
  "parse_loop svl conf [] st = Continue st"
| "parse_loop svl conf (i # is) st =
     (if line st ! i = TAB \<or> line st ! i = NUL then
        (case handle_field svl conf i st of
           Continue st' \<Rightarrow>
             parse_loop svl conf is (st'\<lparr>field_b := i + 1, field_id := field_id st' + 1\<rparr>)
         | Break st' \<Rightarrow> Break st'
         | Return r st' \<Rightarrow> Return r st')
      else parse_loop svl conf is st)"

text \<open>After the loop (lines 358-368).\<close>

definition vcf_end :: "parse_state \<Rightarrow> parse_state" where
  "vcf_end st =
     (let tmp = (if reflen st < svlen st
                 then (if svlen st < fmtlen st then fmtlen st else svlen st)
                 else (if reflen st < fmtlen st then fmtlen st else reflen st));
          tmp = wrap64 (tmp + intv_beg st)
      in st\<lparr>intv_end := (if intv_end st < tmp then tmp else intv_end st)\<rparr>)"

definition finish :: "tbx_conf_t \<Rightarrow> parse_state \<Rightarrow> int \<times> parse_state" where
  "finish conf st =
     (let st = (if preset_tag conf = TBX_VCF then vcf_end st else st)
      in if intv_ss st = None \<or> intv_se st = None \<or> intv_beg st < 0 \<or> intv_end st < 0
         then (- 1, st) else (0, st))"

text \<open>
  The state on entry (lines 154-160). \<open>stack\<close> is what the uninitialised array
  \<^verbatim>\<open>svlenals\<close> holds; \<open>rep\<close> and \<open>ws\<close> are the latch and the log so far.
\<close>

definition init_state :: "char list \<Rightarrow> (nat \<Rightarrow> 8 word) \<Rightarrow> bool \<Rightarrow> warning list \<Rightarrow> parse_state" where
  "init_state ln stack rep ws =
     \<lparr>line = ln, intv_ss = None, intv_se = None, intv_beg = - 1, intv_end = - 1,
      field_b = 0, field_id = 1, getlen = False, alcnt = 0, use_svlen = False, lenpos = - 1,
      svlenals = stack, reflen = 0, svlen = 0, fmtlen = 0, reported = rep, warnings = ws\<rparr>"

text \<open>
  \<^verbatim>\<open>tbx_parse1(conf, len, line, intv)\<close>: the return value and the final state, which holds
  the buffer, \<open>intv\<close>, the latch and the log.
\<close>

definition tbx_parse1 ::
  "(string \<Rightarrow> bool) \<Rightarrow> tbx_conf_t \<Rightarrow> nat \<Rightarrow> parse_state \<Rightarrow> int \<times> parse_state" where
  "tbx_parse1 svl conf len st0 =
     (case parse_loop svl conf [0..<Suc len] st0 of
        Return r st \<Rightarrow> (r, st)
      | Break st \<Rightarrow> finish conf st
      | Continue st \<Rightarrow> finish conf st)"


subsection \<open>Lines as the callers pass them\<close>

text \<open>
  The callers pass the characters of a \<^verbatim>\<open>kstring_t\<close> and its length: the buffer holds the
  line and a terminating NUL behind it.
\<close>

definition kstring :: "string \<Rightarrow> char list" where
  "kstring s = s @ [NUL]"

fun join_with :: "char \<Rightarrow> string list \<Rightarrow> string" where
  "join_with c [] = []"
| "join_with c [x] = x"
| "join_with c (x # y # ys) = x @ c # join_with c (y # ys)"

definition tsv :: "string list \<Rightarrow> string" where
  "tsv fs = join_with TAB fs"

definition parse_line ::
  "(string \<Rightarrow> bool) \<Rightarrow> tbx_conf_t \<Rightarrow> (nat \<Rightarrow> 8 word) \<Rightarrow> bool \<Rightarrow> warning list \<Rightarrow> string
     \<Rightarrow> int \<times> parse_state" where
  "parse_line svl conf stack rep ws s =
     tbx_parse1 svl conf (length s) (init_state (kstring s) stack rep ws)"

text \<open>
  Modelled from the spec: \<^verbatim>\<open>svlen_on_ref_for_vcf_alt\<close> of \<^verbatim>\<open>vcf.c\<close> is not among the sources.
  The spec calls symbolic the ALT strings of the form \<^verbatim>\<open><...>\<close> other than \<^verbatim>\<open><*>\<close> and
  \<^verbatim>\<open><NON_REF>\<close>. It instantiates the parameter \<open>svl\<close> at concrete lines.
\<close>

definition symbolic_alt :: "string \<Rightarrow> bool" where
  "symbolic_alt a =
     (2 \<le> length a \<and> hd a = CHR ''<'' \<and> last a = CHR ''>'' \<and> a \<noteq> ''<*>'' \<and> a \<noteq> ''<NON_REF>'')"

text \<open>
  The loop seen field by field: on a line whose fields are \<open>f # fs\<close> the body runs once at the
  end of each field. \<open>parse_loop_fields\<close> below shows that this is what the loop over the
  indices does.
\<close>

fun fields_loop ::
  "(string \<Rightarrow> bool) \<Rightarrow> tbx_conf_t \<Rightarrow> string list \<Rightarrow> parse_state \<Rightarrow> parse_state flow" where
  "fields_loop svl conf [] st = Continue st"
| "fields_loop svl conf (f # fs) st =
     (case handle_field svl conf (field_b st + length f) st of
        Continue st' \<Rightarrow>
          fields_loop svl conf fs
            (st'\<lparr>field_b := field_b st + length f + 1, field_id := field_id st' + 1\<rparr>)
      | Break st' \<Rightarrow> Break st'
      | Return r st' \<Rightarrow> Return r st')"

definition plain_field :: "string \<Rightarrow> bool" where
  "plain_field f = (TAB \<notin> set f \<and> NUL \<notin> set f)"

text \<open>
  What holds of the coordinates of a VCF line at every turn of the loop: \<open>beg\<close> is unset or
  not negative, the three lengths are not negative, and once \<open>beg\<close> is set, \<open>end\<close> is at
  least 1 unless an addition wrapped around.
\<close>

definition vcf_inv :: "nat \<Rightarrow> parse_state \<Rightarrow> bool" where
  "vcf_inv len st =
     (- 1 \<le> intv_beg st \<and> intv_beg st < 2 ^ 63
      \<and> 0 \<le> reflen st \<and> reflen st \<le> int len
      \<and> 0 \<le> svlen st \<and> svlen st < 2 ^ 63
      \<and> 0 \<le> fmtlen st \<and> fmtlen st < 2 ^ 63
      \<and> (if 0 \<le> intv_beg st then 1 \<le> intv_end st \<or> (intv_end st < 0 \<and> 0 < intv_beg st)
         else True))"

text \<open>
  A sequence of calls in one process: each call has its configuration, its stack and its
  buffer; the latch and the log pass from one call to the next.
\<close>

fun parse_calls ::
  "(string \<Rightarrow> bool) \<Rightarrow> (tbx_conf_t \<times> (nat \<Rightarrow> 8 word) \<times> nat \<times> char list) list
     \<Rightarrow> bool \<times> warning list \<Rightarrow> bool \<times> warning list" where
  "parse_calls svl [] g = g"
| "parse_calls svl ((conf, stack, len, ln) # calls) g =
     (let st = snd (tbx_parse1 svl conf len (init_state ln stack (fst g) (snd g)))
      in parse_calls svl calls (reported st, warnings st))"

fun is_info_end :: "warning \<Rightarrow> bool" where
  "is_info_end (Warn_info_end e) = True"
| "is_info_end Warn_coordinate = False"

definition n_info_end :: "warning list \<Rightarrow> nat" where
  "n_info_end ws = length (filter is_info_end ws)"

definition n_coordinate :: "warning list \<Rightarrow> nat" where
  "n_coordinate ws = length (filter (\<lambda>w. w = Warn_coordinate) ws)"

definition kcall :: "tbx_conf_t \<Rightarrow> string \<Rightarrow> tbx_conf_t \<times> (nat \<Rightarrow> 8 word) \<times> nat \<times> char list" where
  "kcall conf s = (conf, \<lambda>_. 0, length s, kstring s)"

text \<open>The name slice is unset, or it lies within the line.\<close>

definition slice_ok :: "nat \<Rightarrow> parse_state \<Rightarrow> bool" where
  "slice_ok len st =
     (case (intv_ss st, intv_se st) of
        (None, None) \<Rightarrow> True
      | (Some b, Some e) \<Rightarrow> b \<le> e \<and> e \<le> len
      | _ \<Rightarrow> False)"


subsection \<open>GAF paths\<close>

text \<open>
  A path is a sequence of steps, each an orientation character and a node id, as in
  \<^verbatim>\<open>>12<34>5\<close>. \<open>node_ids base\<close> reads the node ids as \<^verbatim>\<open>strtoll\<close> does in the given base.
  \<open>c_literal\<close> holds of the node ids that \<^verbatim>\<open>strtoll\<close> with base 0 reads whole: letters and
  digits forming a decimal number, an octal number after \<^verbatim>\<open>0\<close> or a hexadecimal number after
  \<^verbatim>\<open>0x\<close>.
\<close>

definition gaf_path :: "(char \<times> string) list \<Rightarrow> string" where
  "gaf_path steps = concat (map (\<lambda>(c, d). c # d) steps)"

definition node_ids :: "nat \<Rightarrow> (char \<times> string) list \<Rightarrow> int list" where
  "node_ids base steps = map (\<lambda>(c, d). fst (strtoll base (d @ [NUL]))) steps"

definition c_literal :: "string \<Rightarrow> bool" where
  "c_literal d =
     (d \<noteq> [] \<and> list_all (\<lambda>c. digit_val c \<noteq> None) d \<and> snd (strtoll 0 (d @ [NUL])) = length d)"

definition gaf_step :: "char \<times> string \<Rightarrow> bool" where
  "gaf_step = (\<lambda>(c, d). (c = CHR ''>'' \<or> c = CHR ''<'') \<and> c_literal d)"

text \<open>What one turn of the loop of lines 171-185 does to begin and end.\<close>

fun range_add :: "int \<times> int \<Rightarrow> int \<Rightarrow> int \<times> int" where
  "range_add (lo, hi) v =
     (if lo = - 1 then (v, v)
      else (if v < lo then v else lo, if v > hi then v else hi))"


subsection \<open>The ALT column seen allele by allele\<close>

text \<open>
  What one turn of the loop of lines 236-258 does to the state when the allele it looks at is
  \<open>a\<close>, and the loop over the alleles of the column: it goes on while there is a further
  allele and the count is below 65536. \<open>alt_loop_alleles\<close> below shows that this is what the
  loop over the buffer does.
\<close>

definition alt_allele ::
  "(string \<Rightarrow> bool) \<Rightarrow> string \<Rightarrow> int \<Rightarrow> parse_state \<Rightarrow> int \<times> parse_state" where
  "alt_allele svl a lastbyte st =
     (let fresh = (drop_bit 3 (alcnt st) \<noteq> lastbyte);
          lastbyte = (if fresh then drop_bit 3 (alcnt st) else lastbyte);
          st = (if fresh then st\<lparr>svlenals := (svlenals st)(nat lastbyte := 0)\<rparr> else st);
          st = st\<lparr>alcnt := alcnt st + 1\<rparr>
      in (lastbyte, alt_examine svl a lastbyte st))"

fun alt_alleles :: "(string \<Rightarrow> bool) \<Rightarrow> string list \<Rightarrow> int \<Rightarrow> parse_state \<Rightarrow> parse_state" where
  "alt_alleles svl [] lastbyte st = st"
| "alt_alleles svl (a # as) lastbyte st =
     (let r = alt_allele svl a lastbyte st
      in if as \<noteq> [] \<and> alcnt (snd r) < 65536 then alt_alleles svl as (fst r) (snd r) else snd r)"

text \<open>An allele that marks a gVCF block, and an allele as it stands in the column.\<close>

definition gvcf_allele :: "(string \<Rightarrow> bool) \<Rightarrow> string \<Rightarrow> bool" where
  "gvcf_allele svl a = (\<not> svl a \<and> (a = ''<*>'' \<or> a = ''<NON_REF>''))"

definition allele_text :: "string \<Rightarrow> bool" where
  "allele_text a = (CHR '','' \<notin> set a \<and> TAB \<notin> set a \<and> NUL \<notin> set a)"

text \<open>
  What the count and the flags are once the ALT column with the alleles \<open>as\<close> has been scanned,
  the count being \<open>n\<close> on entry: the first \<open>65536 - n\<close> alleles have been counted and examined.
\<close>

definition alt_seen :: "(string \<Rightarrow> bool) \<Rightarrow> int \<Rightarrow> string list \<Rightarrow> parse_state \<Rightarrow> bool" where
  "alt_seen svl n as st =
     (alcnt st = n + int (min (length as) (nat (65536 - n)))
      \<and> use_svlen st = list_ex svl (take (nat (65536 - n)) as)
      \<and> getlen st = list_ex (gvcf_allele svl) (take (nat (65536 - n)) as))"


section \<open>The reference dictionary\<close>

text \<open>
  The dictionary is a khash table from names to ids. It is modelled by the list of its
  entries in the order they were put in: \<^verbatim>\<open>kh_size\<close> is the length of the list, \<^verbatim>\<open>kh_get\<close>
  is \<open>map_of\<close>. A null \<^verbatim>\<open>tbx->dict\<close> is \<open>None\<close>. Which allocation of a call fails, if any,
  is the parameter \<open>mem\<close>.
\<close>

datatype oom = No_oom | Oom_init | Oom_put | Oom_strdup

record tbx_t =
  tbx_conf :: tbx_conf_t
  tbx_dict :: "(string \<times> int) list option"

definition get_tid :: "oom \<Rightarrow> tbx_t \<Rightarrow> string \<Rightarrow> bool \<Rightarrow> tbx_t \<times> int" where
  "get_tid mem tbx name is_add =
     (if preset_tag (tbx_conf tbx) = TBX_GAF then (tbx, 0)
      else
        (let tbx = (if tbx_dict tbx = None \<and> mem \<noteq> Oom_init then tbx\<lparr>tbx_dict := Some []\<rparr> else tbx)
         in case tbx_dict tbx of
              None \<Rightarrow> (tbx, - 1)
            | Some d \<Rightarrow>
                if is_add then
                  (if mem = Oom_put then (tbx, - 1)
                   else
                     (case map_of d name of
                        Some v \<Rightarrow> (tbx, wrap32 v)
                      | None \<Rightarrow>
                          if mem = Oom_strdup then (tbx, - 1)
                          else (tbx\<lparr>tbx_dict := Some (d @ [(name, int (length d))])\<rparr>,
                                wrap32 (int (length d)))))
                else
                  (case map_of d name of
                     None \<Rightarrow> (tbx, - 1)
                   | Some v \<Rightarrow> (tbx, wrap32 v))))"

definition tbx_name2id :: "oom \<Rightarrow> tbx_t \<Rightarrow> string \<Rightarrow> tbx_t \<times> int" where
  "tbx_name2id mem tbx name = get_tid mem tbx name False"

text \<open>Adding names one after the other, none of the allocations failing: the ids returned.\<close>

fun add_names :: "tbx_t \<Rightarrow> string list \<Rightarrow> tbx_t \<times> int list" where
  "add_names tbx [] = (tbx, [])"
| "add_names tbx (n # ns) =
     (let r = get_tid No_oom tbx n True;
          rs = add_names (fst r) ns
      in (fst rs, snd r # snd rs))"

text \<open>The distinct names of a list, in the order of their first occurrence.\<close>

fun first_seen :: "'a list \<Rightarrow> 'a list \<Rightarrow> 'a list" where
  "first_seen ds [] = ds"
| "first_seen ds (n # ns) = first_seen (if n \<in> set ds then ds else ds @ [n]) ns"

subsection \<open>Loading the names of an index: \<^verbatim>\<open>index_load\<close>\<close>

definition le_to_u32 :: "char list \<Rightarrow> nat \<Rightarrow> nat" where
  "le_to_u32 buf p =
     nat (of_char (buf ! p) + 256 * of_char (buf ! (p + 1)) + 65536 * of_char (buf ! (p + 2))
          + 16777216 * of_char (buf ! (p + 3)))"

definition le_to_i32 :: "char list \<Rightarrow> nat \<Rightarrow> int" where
  "le_to_i32 buf p = wrap32 (int (le_to_u32 buf p))"

text \<open>
  The loop of lines 639-644: \<open>p\<close> is the offset behind \<^verbatim>\<open>nm\<close>, \<open>k\<close> counts the calls of
  \<^verbatim>\<open>get_tid\<close>, whose allocations fail as \<open>mem k\<close> says. \<open>None\<close> is the \<^verbatim>\<open>goto fail\<close>.
\<close>

function load_names ::
  "(nat \<Rightarrow> oom) \<Rightarrow> char list \<Rightarrow> nat \<Rightarrow> nat \<Rightarrow> nat \<Rightarrow> tbx_t \<Rightarrow> tbx_t option" where
  "load_names mem meta l_nm p k tbx =
     (if p < l_nm then
        (let name = cstr (drop (28 + p) meta);
             r = get_tid (mem k) tbx name True
         in if snd r < 0 then None
            else load_names mem meta l_nm (p + (length name + 1)) (Suc k) (fst r))
      else Some tbx)"
  by pat_completeness auto
termination
  by (relation "measure (\<lambda>(mem, meta, l_nm, p, k, tbx). l_nm - p)") auto

declare load_names.simps [simp del]

text \<open>
  \<^verbatim>\<open>index_load\<close> from the meta block on (lines 623-645). \<open>meta\<close> holds the \<open>l_meta\<close> bytes of the
  block and the NUL the loader puts behind them.
\<close>

definition meta_conf :: "char list \<Rightarrow> tbx_conf_t" where
  "meta_conf meta =
     \<lparr>preset = le_to_i32 meta 0, sc = le_to_i32 meta 4, bc = le_to_i32 meta 8,
      ec = le_to_i32 meta 12, meta_char = le_to_i32 meta 16, line_skip = le_to_i32 meta 20\<rparr>"

definition index_load :: "(nat \<Rightarrow> oom) \<Rightarrow> char list \<Rightarrow> nat \<Rightarrow> tbx_t option" where
  "index_load mem meta l_meta =
     (if l_meta < 28 then None
      else
        (let conf = meta_conf meta;
             l_nm = le_to_u32 meta 24
         in if l_nm > l_meta - 28 then None
            else load_names mem meta l_nm 0 0 \<lparr>tbx_conf = conf, tbx_dict = None\<rparr>))"

text \<open>The names of the block, as the loop walks them.\<close>

function block_names :: "char list \<Rightarrow> nat \<Rightarrow> nat \<Rightarrow> string list" where
  "block_names meta l_nm p =
     (if p < l_nm then
        cstr (drop (28 + p) meta) # block_names meta l_nm (p + (length (cstr (drop (28 + p) meta)) + 1))
      else [])"
  by pat_completeness auto
termination
  by (relation "measure (\<lambda>(meta, l_nm, p). l_nm - p)") auto

declare block_names.simps [simp del]

text \<open>
  The dictionary holds the names \<open>ds\<close>, each with its position as id (\<open>dict_holds\<close>), and
  every name of \<open>ds\<close> looks up to its position (\<open>ids_in_order\<close>).
\<close>

definition entries :: "string list \<Rightarrow> (string \<times> int) list" where
  "entries ds = zip ds (map int [0..<length ds])"

definition dict_holds :: "tbx_t \<Rightarrow> string list \<Rightarrow> bool" where
  "dict_holds tbx ds =
     (distinct ds \<and> (tbx_dict tbx = Some (entries ds) \<or> (tbx_dict tbx = None \<and> ds = [])))"

definition ids_in_order :: "tbx_t \<Rightarrow> string list \<Rightarrow> bool" where
  "ids_in_order tbx ds =
     list_all (\<lambda>k. tbx_name2id No_oom tbx (ds ! k) = (tbx, int k)) [0..<length ds]"

text \<open>A meta block for a configuration and a names block, with the NUL behind it.\<close>

definition le_bytes :: "int \<Rightarrow> char list" where
  "le_bytes n = [char_of n, char_of (n div 256), char_of (n div 65536), char_of (n div 16777216)]"

definition meta_block :: "int list \<Rightarrow> char list \<Rightarrow> char list" where
  "meta_block header names =
     concat (map le_bytes header) @ le_bytes (int (length names)) @ names @ [NUL]"

subsection \<open>\<^verbatim>\<open>get_intv\<close>: the interval and the id of a line\<close>

text \<open>
  \<^verbatim>\<open>get_intv\<close> (lines 371-401): the return value, the handle, the state of the parse and
  the id. The name is the field between \<^verbatim>\<open>ss\<close> and \<^verbatim>\<open>se\<close>.
\<close>

definition get_intv ::
  "(string \<Rightarrow> bool) \<Rightarrow> oom \<Rightarrow> tbx_t \<Rightarrow> string \<Rightarrow> (nat \<Rightarrow> 8 word) \<Rightarrow> bool \<Rightarrow> warning list
     \<Rightarrow> bool \<Rightarrow> int \<times> tbx_t \<times> parse_state \<times> int option" where
  "get_intv svl mem tbx s stack rep ws is_add =
     (let r = tbx_parse1 svl (tbx_conf tbx) (length s) (init_state (kstring s) stack rep ws);
          st = snd r
      in if fst r = 0 then
           (let ln = (line st)[the (intv_se st) := NUL];
                t = (if preset_tag (tbx_conf tbx) = TBX_GAF then (tbx, 0)
                     else get_tid mem tbx (cstr (drop (the (intv_ss st)) ln)) is_add)
            in if snd t < 0 then (- 2, fst t, st, Some (snd t))
               else (if 0 \<le> intv_beg st \<and> 0 \<le> intv_end st then 0 else - 1, fst t, st, Some (snd t)))
         else (- 1, tbx, st, None))"


section \<open>The region parser \<^verbatim>\<open>hts_parse_region\<close>\<close>

text \<open>
  The flags and \<^verbatim>\<open>HTS_POS_MAX\<close> are macros of \<^verbatim>\<open>htslib/hts.h\<close>, which is not among the sources;
  they have the values of that header (the spec calls the largest position \<open>+\<infinity>\<close>).
\<close>

definition HTS_PARSE_THOUSANDS_SEP :: int where
  "HTS_PARSE_THOUSANDS_SEP = 1"

definition HTS_PARSE_ONE_COORD :: int where
  "HTS_PARSE_ONE_COORD = 2"

definition HTS_PARSE_LIST :: int where
  "HTS_PARSE_LIST = 4"

definition HTS_POS_MAX :: int where
  "HTS_POS_MAX = 0x7fffffff7fffffff"

text \<open>\<^verbatim>\<open>memchr\<close> and \<^verbatim>\<open>hts_memrchr\<close>: the first and the last occurrence in the bytes given.\<close>

fun memchr :: "char list \<Rightarrow> char \<Rightarrow> nat option" where
  "memchr [] c = None"
| "memchr (x # xs) c = (if x = c then Some 0 else map_option Suc (memchr xs c))"

fun hts_memrchr :: "char list \<Rightarrow> char \<Rightarrow> nat option" where
  "hts_memrchr [] c = None"
| "hts_memrchr (x # xs) c =
     (case hts_memrchr xs c of
        Some k \<Rightarrow> Some (Suc k)
      | None \<Rightarrow> if x = c then Some 0 else None)"

text \<open>
  The messages the call hands to \<^verbatim>\<open>hts_log_error\<close>; the unexpected string is given by where
  it starts.
\<close>

datatype region_error =
  Mismatching_braces
| Range_ambiguous
| Coordinates_not_positive
| Unexpected_string nat

text \<open>
  What the call writes through \<^verbatim>\<open>tid\<close>, \<^verbatim>\<open>beg\<close> and \<^verbatim>\<open>end\<close>, the pointer it returns (an
  offset into the string, \<open>None\<close> for the null pointer) and the errors it logs.
\<close>

record region =
  r_tid :: int
  r_beg :: int
  r_end :: int
  r_ret :: "nat option"
  r_log :: "region_error list"

definition log_error :: "region_error \<Rightarrow> region \<Rightarrow> region" where
  "log_error e out = out\<lparr>r_log := r_log out @ [e]\<rparr>"

text \<open>
  The coordinates behind the colon (lines 863-901). \<open>pd\<close> is \<^verbatim>\<open>hts_parse_decimal\<close>, which is
  not among the sources: the value read and the number of characters read. \<open>buf\<close> is
  the string with its terminating NUL, \<open>colon\<close> the index of the colon.
\<close>

definition region_coords ::
  "(char list \<Rightarrow> int \<Rightarrow> int \<times> nat) \<Rightarrow> char list \<Rightarrow> nat \<Rightarrow> int \<Rightarrow> nat \<Rightarrow> region \<Rightarrow> region" where
  "region_coords pd buf colon flags s_end out =
     (let d = pd (drop (colon + 1) buf) flags;
          hyphen = colon + 1 + snd d;
          out = out\<lparr>r_beg := wrap64 (fst d - 1)\<rparr>;
          h = buf ! hyphen
      in if r_beg out < 0 \<and> r_beg out \<noteq> - 1 \<and> h = CHR ''-'' \<and> buf ! (colon + 1) \<noteq> NUL
         then log_error Coordinates_not_positive (out\<lparr>r_ret := None\<rparr>)
         else if r_beg out < 0 \<and> (isdigit_c h \<or> h = NUL \<or> h = CHR '','')
         then out\<lparr>r_end := (if r_beg out = - 1 then HTS_POS_MAX else wrap64 (- (r_beg out + 1))),
                  r_beg := 0, r_ret := Some s_end\<rparr>
         else if r_beg out < - 1 then log_error (Unexpected_string hyphen) (out\<lparr>r_ret := None\<rparr>)
         else
           (let res =
              (if h = NUL \<or> (flags AND HTS_PARSE_LIST \<noteq> 0 \<and> h = CHR '','')
               then (True, out\<lparr>r_end := (if flags AND HTS_PARSE_ONE_COORD \<noteq> 0
                                          then wrap64 (r_beg out + 1) else HTS_POS_MAX)\<rparr>)
               else if h = CHR ''-''
               then (let e = pd (drop (hyphen + 1) buf) flags;
                         hyphen2 = hyphen + 1 + snd e;
                         h2 = buf ! hyphen2;
                         out = out\<lparr>r_end := fst e\<rparr>
                     in if h2 \<noteq> NUL \<and> h2 \<noteq> CHR '',''
                        then (False, log_error (Unexpected_string hyphen2) out)
                        else (True, out))
               else (False, log_error (Unexpected_string hyphen) out));
                out = snd res
            in if \<not> fst res then out\<lparr>r_ret := None\<rparr>
               else
                 (let out = (if r_end out = 0 then out\<lparr>r_end := HTS_POS_MAX\<rparr> else out)
                  in if r_beg out \<ge> r_end out then out\<lparr>r_ret := None\<rparr>
                     else out\<lparr>r_ret := Some s_end\<rparr>)))"

text \<open>
  \<^verbatim>\<open>hts_parse_region\<close> (lines 746-902). \<open>s\<close> is the string without its NUL, \<open>getid\<close> the name
  resolver with its header, \<open>alloc_ok\<close> says whether \<^verbatim>\<open>kputsn\<close> gets its memory, \<open>out\<close> is
  what \<^verbatim>\<open>tid\<close>, \<^verbatim>\<open>beg\<close> and \<^verbatim>\<open>end\<close> point to on entry and the log so far. The pointers
  are not null.
\<close>

definition hts_parse_region ::
  "(string \<Rightarrow> int) \<Rightarrow> (char list \<Rightarrow> int \<Rightarrow> int \<times> nat) \<Rightarrow> bool \<Rightarrow> string \<Rightarrow> int \<Rightarrow> region
     \<Rightarrow> region" where
  "hts_parse_region getid pd alloc_ok s flags0 out =
     (let buf = s @ [NUL];
          flags = (if flags0 AND HTS_PARSE_LIST \<noteq> 0 then flags0 AND NOT HTS_PARSE_THOUSANDS_SEP
                   else flags0 OR HTS_PARSE_THOUSANDS_SEP);
          list = (flags AND HTS_PARSE_LIST \<noteq> 0);
          braced = (buf ! 0 = CHR ''{'');
          close = memchr s (CHR ''}'')
      in if braced \<and> close = None
         then log_error Mismatching_braces (out\<lparr>r_tid := - 1, r_ret := None\<rparr>)
         else
           (let s0 = (if braced then 1 else 0);
                quoted = (if braced then 1 else 0);
                comma = (if list then c_strchr buf (if braced then the close else 0) (CHR '','')
                         else None);
                s_len = (case comma of Some k \<Rightarrow> k - s0 | None \<Rightarrow> length s - s0);
                s_end = (case comma of Some k \<Rightarrow> k + 1 | None \<Rightarrow> length s);
                colon = (if braced
                         then (if buf ! (the close + 1) = CHR '':'' then Some (the close + 1) else None)
                         else hts_memrchr (take s_len s) (CHR '':''))
            in case colon of
                 None \<Rightarrow>
                   (let out = out\<lparr>r_beg := 0, r_end := HTS_POS_MAX\<rparr>
                    in if \<not> alloc_ok then out\<lparr>r_tid := - 2, r_ret := None\<rparr>
                       else
                         (let out = out\<lparr>r_tid := getid (take (s_len - quoted) (drop s0 s))\<rparr>
                          in out\<lparr>r_ret := (if r_tid out \<ge> 0 then Some s_end else None)\<rparr>))
               | Some col \<Rightarrow>
                   (let whole =
                      (if braced then Inr out
                       else
                         (let out = out\<lparr>r_beg := 0, r_end := HTS_POS_MAX\<rparr>
                          in if \<not> alloc_ok then Inl (out\<lparr>r_tid := - 2, r_ret := None\<rparr>)
                             else
                               (let out = out\<lparr>r_tid := getid (take s_len s)\<rparr>
                                in if r_tid out \<ge> 0 then
                                     (if getid (take col s) \<ge> 0
                                      then Inl (log_error Range_ambiguous
                                                  (out\<lparr>r_tid := - 1, r_ret := None\<rparr>))
                                      else Inl (out\<lparr>r_ret := Some s_end\<rparr>))
                                   else if r_tid out < - 1 then Inl (out\<lparr>r_ret := None\<rparr>)
                                   else Inr out)))
                    in case whole of
                         Inl res \<Rightarrow> res
                       | Inr out \<Rightarrow>
                           if \<not> alloc_ok then out\<lparr>r_tid := - 2, r_ret := None\<rparr>
                           else
                             (let out = out\<lparr>r_tid := getid (take (col - s0 - quoted) (drop s0 s))\<rparr>
                              in if r_tid out < 0 then out\<lparr>r_ret := None\<rparr>
                                 else region_coords pd buf col flags s_end out))))"

text \<open>The item a call parses: the string, or with the list flag what stands before its first comma.\<close>

definition region_item :: "string \<Rightarrow> int \<Rightarrow> string" where
  "region_item s flags =
     (if flags AND HTS_PARSE_LIST \<noteq> 0 then takeWhile (\<lambda>c. c \<noteq> CHR '','') s else s)"

definition before_last_colon :: "string \<Rightarrow> string" where
  "before_last_colon item = rev (tl (dropWhile (\<lambda>c. c \<noteq> CHR '':'') (rev item)))"

definition region_end :: "string \<Rightarrow> int \<Rightarrow> nat" where
  "region_end s flags =
     (if flags AND HTS_PARSE_LIST \<noteq> 0 \<and> CHR '','' \<in> set s
      then length (takeWhile (\<lambda>c. c \<noteq> CHR '','') s) + 1 else length s)"


section \<open>Growing the number of levels: \<^verbatim>\<open>adjust_n_lvls\<close>\<close>

text \<open>
  Modelled from the spec: \<^verbatim>\<open>hts_bin_maxpos\<close> is declared in a header that is not among the
  sources; the spec gives \<open>max_pos(min_shift, n_lvls) = 1 << (min_shift + 3 * n_lvls)\<close>.
  The result is an \<^verbatim>\<open>int64_t\<close>.
\<close>

definition hts_bin_maxpos :: "int \<Rightarrow> int \<Rightarrow> int" where
  "hts_bin_maxpos min_shift n_lvls = wrap64 (push_bit (nat (min_shift + 3 * n_lvls)) 1)"

text \<open>
  The loop of \<^verbatim>\<open>adjust_n_lvls\<close> (line 499) has no bound of its own, so it is a partial
  function: \<open>None\<close> is a run that never returns. \<open>s\<close> and \<open>max_len\<close> are \<^verbatim>\<open>int64_t\<close>,
  \<open>n_lvls\<close> is an \<^verbatim>\<open>int\<close>.
\<close>

partial_function (option) adjust_loop :: "int \<Rightarrow> int \<Rightarrow> int \<Rightarrow> int option" where
  "adjust_loop max_len n_lvls s =
     (if max_len > s then adjust_loop max_len (wrap32 (n_lvls + 1)) (wrap64 (push_bit 3 s))
      else Some n_lvls)"

declare adjust_loop.simps [code]

definition adjust_n_lvls :: "int \<Rightarrow> int \<Rightarrow> int \<Rightarrow> int option" where
  "adjust_n_lvls min_shift n_lvls max_len =
     adjust_loop (wrap64 (max_len + 256)) n_lvls (hts_bin_maxpos min_shift n_lvls)"


section \<open>Basic facts about the model\<close>

lemma wrap64_id: "- (2 ^ 63) \<le> x \<Longrightarrow> x < 2 ^ 63 \<Longrightarrow> wrap64 x = x"
  by (simp add: wrap64_def)

lemma wrap32_id: "- (2 ^ 31) \<le> x \<Longrightarrow> x < 2 ^ 31 \<Longrightarrow> wrap32 x = x"
  by (simp add: wrap32_def)

lemma wrap64_range: "- (2 ^ 63) \<le> wrap64 x \<and> wrap64 x < 2 ^ 63"
proof -
  have "0 \<le> (x + 2 ^ 63) mod 2 ^ 64" "(x + 2 ^ 63) mod 2 ^ 64 < (2 ^ 64 :: int)"
    by simp_all
  then show ?thesis by (simp add: wrap64_def)
qed

lemma strchr_nth: "strchr xs c = Some k \<Longrightarrow> k < length xs \<and> xs ! k = c"
  by (induction xs arbitrary: k) (auto split: if_splits)

lemma c_strchr_nth: "c_strchr buf p c = Some t \<Longrightarrow> p \<le> t \<and> t < length buf \<and> buf ! t = c"
  by (auto simp: c_strchr_def dest!: strchr_nth)

subsection \<open>What each column leaves unchanged\<close>

lemma alt_examine_frame:
  "line (alt_examine svl a lastbyte st) = line st"
  "intv_ss (alt_examine svl a lastbyte st) = intv_ss st"
  "intv_se (alt_examine svl a lastbyte st) = intv_se st"
  "intv_beg (alt_examine svl a lastbyte st) = intv_beg st"
  "intv_end (alt_examine svl a lastbyte st) = intv_end st"
  "field_b (alt_examine svl a lastbyte st) = field_b st"
  "field_id (alt_examine svl a lastbyte st) = field_id st"
  "lenpos (alt_examine svl a lastbyte st) = lenpos st"
  "reflen (alt_examine svl a lastbyte st) = reflen st"
  "svlen (alt_examine svl a lastbyte st) = svlen st"
  "fmtlen (alt_examine svl a lastbyte st) = fmtlen st"
  "reported (alt_examine svl a lastbyte st) = reported st"
  "warnings (alt_examine svl a lastbyte st) = warnings st"
  by (simp_all add: alt_examine_def)

lemma alt_step_line: "line (snd (snd (alt_step svl s lastbyte st))) = line st"
proof (cases "c_strchr (line st) s (CHR '','')")
  case None
  then show ?thesis by (simp add: alt_step_def Let_def alt_examine_frame)
next
  case (Some k)
  then have "(line st)[k := CHR '',''] = line st"
    using c_strchr_nth [OF Some] by (metis list_update_id)
  with Some show ?thesis by (simp add: alt_step_def Let_def alt_examine_frame)
qed

lemma alt_step_frame:
  "intv_ss (snd (snd (alt_step svl s lastbyte st))) = intv_ss st"
  "intv_se (snd (snd (alt_step svl s lastbyte st))) = intv_se st"
  "intv_beg (snd (snd (alt_step svl s lastbyte st))) = intv_beg st"
  "intv_end (snd (snd (alt_step svl s lastbyte st))) = intv_end st"
  "field_b (snd (snd (alt_step svl s lastbyte st))) = field_b st"
  "field_id (snd (snd (alt_step svl s lastbyte st))) = field_id st"
  "lenpos (snd (snd (alt_step svl s lastbyte st))) = lenpos st"
  "reflen (snd (snd (alt_step svl s lastbyte st))) = reflen st"
  "svlen (snd (snd (alt_step svl s lastbyte st))) = svlen st"
  "fmtlen (snd (snd (alt_step svl s lastbyte st))) = fmtlen st"
  "reported (snd (snd (alt_step svl s lastbyte st))) = reported st"
  "warnings (snd (snd (alt_step svl s lastbyte st))) = warnings st"
  by (simp_all add: alt_step_def Let_def alt_examine_frame split: option.splits)

lemma alt_loop_frame:
  "line (alt_loop svl s lastbyte st) = line st
   \<and> intv_ss (alt_loop svl s lastbyte st) = intv_ss st
   \<and> intv_se (alt_loop svl s lastbyte st) = intv_se st
   \<and> intv_beg (alt_loop svl s lastbyte st) = intv_beg st
   \<and> intv_end (alt_loop svl s lastbyte st) = intv_end st
   \<and> field_b (alt_loop svl s lastbyte st) = field_b st
   \<and> field_id (alt_loop svl s lastbyte st) = field_id st
   \<and> lenpos (alt_loop svl s lastbyte st) = lenpos st
   \<and> reflen (alt_loop svl s lastbyte st) = reflen st
   \<and> svlen (alt_loop svl s lastbyte st) = svlen st
   \<and> fmtlen (alt_loop svl s lastbyte st) = fmtlen st
   \<and> reported (alt_loop svl s lastbyte st) = reported st
   \<and> warnings (alt_loop svl s lastbyte st) = warnings st"
proof (induction svl s lastbyte st rule: alt_loop.induct)
  case (1 svl s lastbyte st)
  obtain t lastbyte' st' where step: "alt_step svl s lastbyte st = (t, lastbyte', st')"
    by (cases "alt_step svl s lastbyte st") auto
  have st': "st' = snd (snd (alt_step svl s lastbyte st))"
    by (simp add: step)
  show ?case
  proof (cases "\<exists>k. t = Some k \<and> alcnt st' < 65536")
    case True
    then obtain k where k: "t = Some k" "alcnt st' < 65536" by blast
    have "alt_loop svl s lastbyte st = alt_loop svl (k + 1) lastbyte' st'"
      by (subst alt_loop.simps) (simp add: step k)
    moreover note "1.IH" [OF step [symmetric] refl k(1) k(2)]
    ultimately show ?thesis
      by (simp add: st' alt_step_line alt_step_frame)
  next
    case False
    then have "alt_loop svl s lastbyte st = st'"
      by (subst alt_loop.simps) (auto simp: step split: option.splits)
    then show ?thesis
      by (simp add: st' alt_step_line alt_step_frame)
  qed
qed


lemma restore_byte: "(ln[i := c])[i := ln ! i] = ln"
  by simp

lemma alt_column_line: "line (alt_column svl i st) = line st"
  by (simp add: alt_column_def Let_def alt_loop_frame)

lemma alt_column_frame:
  "intv_ss (alt_column svl i st) = intv_ss st"
  "intv_se (alt_column svl i st) = intv_se st"
  "intv_beg (alt_column svl i st) = intv_beg st"
  "intv_end (alt_column svl i st) = intv_end st"
  "field_b (alt_column svl i st) = field_b st"
  "field_id (alt_column svl i st) = field_id st"
  "lenpos (alt_column svl i st) = lenpos st"
  "reflen (alt_column svl i st) = reflen st"
  "svlen (alt_column svl i st) = svlen st"
  "fmtlen (alt_column svl i st) = fmtlen st"
  "reported (alt_column svl i st) = reported st"
  "warnings (alt_column svl i st) = warnings st"
  by (simp_all add: alt_column_def Let_def alt_loop_frame)

lemma info_end_frame:
  "line (info_end st) = line st"
  "intv_ss (info_end st) = intv_ss st"
  "intv_se (info_end st) = intv_se st"
  "intv_beg (info_end st) = intv_beg st"
  "field_b (info_end st) = field_b st"
  "field_id (info_end st) = field_id st"
  "getlen (info_end st) = getlen st"
  "alcnt (info_end st) = alcnt st"
  "use_svlen (info_end st) = use_svlen st"
  "lenpos (info_end st) = lenpos st"
  "svlenals (info_end st) = svlenals st"
  "reflen (info_end st) = reflen st"
  "svlen (info_end st) = svlen st"
  "fmtlen (info_end st) = fmtlen st"
  by (simp_all add: info_end_def Let_def split: option.splits)

lemma info_column_line: "line (info_column i st) = line st"
  by (simp add: info_column_def Let_def info_end_frame)

lemma info_column_frame:
  "intv_ss (info_column i st) = intv_ss st"
  "intv_se (info_column i st) = intv_se st"
  "intv_beg (info_column i st) = intv_beg st"
  "field_b (info_column i st) = field_b st"
  "field_id (info_column i st) = field_id st"
  "getlen (info_column i st) = getlen st"
  "alcnt (info_column i st) = alcnt st"
  "use_svlen (info_column i st) = use_svlen st"
  "lenpos (info_column i st) = lenpos st"
  "svlenals (info_column i st) = svlenals st"
  "reflen (info_column i st) = reflen st"
  "fmtlen (info_column i st) = fmtlen st"
  by (simp_all add: info_column_def Let_def info_end_frame)

lemma format_loop_line: "fst (format_loop s pos ln lp) = ln"
proof (induction s pos ln lp rule: format_loop.induct)
  case (1 s pos ln lp)
  show ?case
  proof (cases "c_strchr ln s (CHR '':'')")
    case None
    then show ?thesis by (subst format_loop.simps) simp
  next
    case (Some t)
    then have put_back: "(ln[t := NUL])[t := CHR '':''] = ln"
      using c_strchr_nth [OF Some] by (simp add: list_update_same_conv)
    show ?thesis
    proof (cases "cstr (drop s (ln[t := NUL])) = ''LEN''")
      case True
      with Some put_back show ?thesis by (subst format_loop.simps) (simp add: Let_def)
    next
      case False
      have "format_loop s pos ln lp = format_loop (t + 1) (pos + 1) ln lp"
        using Some False put_back by (subst format_loop.simps) (simp add: Let_def)
      moreover have "fst (format_loop (t + 1) (pos + 1) ln lp) = ln"
        using "1.IH" [OF Some refl False] put_back by simp
      ultimately show ?thesis by simp
    qed
  qed
qed

lemma format_column_line: "line (flow_state (format_column i st)) = line st"
  by (simp add: format_column_def Let_def format_loop_line)

lemma format_column_frame:
  "intv_ss (flow_state (format_column i st)) = intv_ss st"
  "intv_se (flow_state (format_column i st)) = intv_se st"
  "intv_beg (flow_state (format_column i st)) = intv_beg st"
  "intv_end (flow_state (format_column i st)) = intv_end st"
  "field_b (flow_state (format_column i st)) = field_b st"
  "field_id (flow_state (format_column i st)) = field_id st"
  "getlen (flow_state (format_column i st)) = getlen st"
  "alcnt (flow_state (format_column i st)) = alcnt st"
  "use_svlen (flow_state (format_column i st)) = use_svlen st"
  "svlenals (flow_state (format_column i st)) = svlenals st"
  "reflen (flow_state (format_column i st)) = reflen st"
  "svlen (flow_state (format_column i st)) = svlen st"
  "fmtlen (flow_state (format_column i st)) = fmtlen st"
  "reported (flow_state (format_column i st)) = reported st"
  "warnings (flow_state (format_column i st)) = warnings st"
  by (simp_all add: format_column_def Let_def)

lemma sample_column_line: "line (sample_column i st) = line st"
  by (simp add: sample_column_def Let_def)

lemma sample_column_frame:
  "intv_ss (sample_column i st) = intv_ss st"
  "intv_se (sample_column i st) = intv_se st"
  "intv_beg (sample_column i st) = intv_beg st"
  "intv_end (sample_column i st) = intv_end st"
  "field_b (sample_column i st) = field_b st"
  "field_id (sample_column i st) = field_id st"
  "getlen (sample_column i st) = getlen st"
  "alcnt (sample_column i st) = alcnt st"
  "use_svlen (sample_column i st) = use_svlen st"
  "lenpos (sample_column i st) = lenpos st"
  "svlenals (sample_column i st) = svlenals st"
  "reflen (sample_column i st) = reflen st"
  "svlen (sample_column i st) = svlen st"
  "reported (sample_column i st) = reported st"
  "warnings (sample_column i st) = warnings st"
  by (simp_all add: sample_column_def Let_def)

lemma ref_column_frame:
  "line (ref_column i st) = line st"
  "intv_ss (ref_column i st) = intv_ss st"
  "intv_se (ref_column i st) = intv_se st"
  "intv_beg (ref_column i st) = intv_beg st"
  "field_b (ref_column i st) = field_b st"
  "field_id (ref_column i st) = field_id st"
  "getlen (ref_column i st) = getlen st"
  "use_svlen (ref_column i st) = use_svlen st"
  "lenpos (ref_column i st) = lenpos st"
  "svlenals (ref_column i st) = svlenals st"
  "svlen (ref_column i st) = svlen st"
  "fmtlen (ref_column i st) = fmtlen st"
  "reported (ref_column i st) = reported st"
  "warnings (ref_column i st) = warnings st"
  by (simp_all add: ref_column_def Let_def)

lemma vcf_column_line: "line (flow_state (vcf_column svl i st)) = line st"
  by (simp add: vcf_column_def Let_def ref_column_frame alt_column_line info_column_line
      format_column_line sample_column_line)

lemma gaf_column_frame:
  "line (gaf_column i st) = line st"
  "intv_ss (gaf_column i st) = intv_ss st"
  "intv_se (gaf_column i st) = intv_se st"
  "field_b (gaf_column i st) = field_b st"
  "field_id (gaf_column i st) = field_id st"
  "reported (gaf_column i st) = reported st"
  "warnings (gaf_column i st) = warnings st"
  by (simp_all add: gaf_column_def Let_def)

lemma begin_column_frame:
  "line (flow_state (begin_column conf st)) = line st"
  "intv_ss (flow_state (begin_column conf st)) = intv_ss st"
  "intv_se (flow_state (begin_column conf st)) = intv_se st"
  "field_b (flow_state (begin_column conf st)) = field_b st"
  "field_id (flow_state (begin_column conf st)) = field_id st"
  "reported (flow_state (begin_column conf st)) = reported st"
  by (simp_all add: begin_column_def Let_def)

lemma end_column_frame:
  "line (flow_state (end_column st)) = line st"
  "intv_ss (flow_state (end_column st)) = intv_ss st"
  "intv_se (flow_state (end_column st)) = intv_se st"
  "intv_beg (flow_state (end_column st)) = intv_beg st"
  "field_b (flow_state (end_column st)) = field_b st"
  "field_id (flow_state (end_column st)) = field_id st"
  "reported (flow_state (end_column st)) = reported st"
  "warnings (flow_state (end_column st)) = warnings st"
  by (simp_all add: end_column_def Let_def)

lemma cigar_column_frame:
  "line (cigar_column i st) = line st"
  "intv_ss (cigar_column i st) = intv_ss st"
  "intv_se (cigar_column i st) = intv_se st"
  "intv_beg (cigar_column i st) = intv_beg st"
  "field_b (cigar_column i st) = field_b st"
  "field_id (cigar_column i st) = field_id st"
  "reported (cigar_column i st) = reported st"
  "warnings (cigar_column i st) = warnings st"
  by (simp_all add: cigar_column_def Let_def)

lemma handle_field_line: "line (flow_state (handle_field svl conf i st)) = line st"
  by (simp add: handle_field_def gaf_column_frame begin_column_frame end_column_frame
      cigar_column_frame vcf_column_line)

lemma parse_loop_line: "line (flow_state (parse_loop svl conf idxs st)) = line st"
proof (induction idxs arbitrary: st)
  case Nil
  then show ?case by simp
next
  case (Cons i idxs)
  show ?case
  proof (cases "line st ! i = TAB \<or> line st ! i = NUL")
    case False
    then show ?thesis using Cons.IH by simp
  next
    case True
    show ?thesis
    proof (cases "handle_field svl conf i st")
      case (Continue st')
      then have "line st' = line st"
        using handle_field_line [of svl conf i st] by simp
      with True Continue show ?thesis
        using Cons.IH [of "st'\<lparr>field_b := i + 1, field_id := field_id st' + 1\<rparr>"] by simp
    next
      case (Break st')
      with True show ?thesis using handle_field_line [of svl conf i st] by simp
    next
      case (Return r st')
      with True show ?thesis using handle_field_line [of svl conf i st] by simp
    qed
  qed
qed

lemma finish_line: "line (snd (finish conf st)) = line st"
  by (simp add: finish_def vcf_end_def Let_def)

lemma tbx_parse1_line: "line (snd (tbx_parse1 svl conf len st)) = line st"
  using parse_loop_line [of svl conf "[0..<Suc len]" st]
  by (cases "parse_loop svl conf [0..<Suc len] st") (simp_all add: tbx_parse1_def finish_line)


subsection \<open>The loop over the indices is a loop over the fields\<close>

lemma vcf_column_frame:
  "field_b (flow_state (vcf_column svl i st)) = field_b st"
  "field_id (flow_state (vcf_column svl i st)) = field_id st"
  "intv_ss (flow_state (vcf_column svl i st)) = intv_ss st"
  "intv_se (flow_state (vcf_column svl i st)) = intv_se st"
  "intv_beg (flow_state (vcf_column svl i st)) = intv_beg st"
  by (simp_all add: vcf_column_def Let_def ref_column_frame alt_column_frame info_column_frame
      format_column_frame sample_column_frame)

lemma handle_field_frame:
  "field_b (flow_state (handle_field svl conf i st)) = field_b st"
  "field_id (flow_state (handle_field svl conf i st)) = field_id st"
  by (simp_all add: handle_field_def gaf_column_frame begin_column_frame end_column_frame
      cigar_column_frame vcf_column_frame)

lemma parse_loop_skip:
  "\<forall>j \<in> set js. line st ! j \<noteq> TAB \<and> line st ! j \<noteq> NUL
   \<Longrightarrow> parse_loop svl conf (js @ ks) st = parse_loop svl conf ks st"
  by (induction js) simp_all

lemma upt_split3: "a \<le> i \<Longrightarrow> i < n \<Longrightarrow> [a..<n] = [a..<i] @ i # [Suc i..<n]"
  by (metis le_add_diff_inverse upt_add_eq_append upt_conv_Cons less_imp_le_nat)

lemma join_with_Cons:
  "join_with c (f # fs) = (if fs = [] then f else f @ c # join_with c fs)"
  by (cases fs) simp_all

lemma parse_loop_fields:
  assumes "\<forall>f \<in> set fs. plain_field f" and "fs \<noteq> []"
    and "drop (field_b st) (line st) = join_with TAB fs @ [NUL]"
  shows "parse_loop svl conf [field_b st..<length (line st)] st = fields_loop svl conf fs st"
  using assms
proof (induction fs arbitrary: st)
  case Nil
  then show ?case by simp
next
  case (Cons f fs)
  define b where "b = field_b st"
  define i where "i = b + length f"
  define c where "c = (if fs = [] then NUL else TAB)"
  define rest where "rest = (if fs = [] then [] else join_with TAB fs @ [NUL])"
  have dr: "drop b (line st) = f @ c # rest"
    using Cons.prems(3) by (simp add: b_def c_def rest_def join_with_Cons)
  have pf: "plain_field f" using Cons.prems(1) by simp
  have len: "length (line st) = b + length f + 1 + length rest"
  proof -
    have "length (drop b (line st)) = length f + 1 + length rest" by (simp add: dr)
    moreover have "b < length (line st)"
      using dr by (metis drop_all list.distinct(1) append_is_Nil_conv not_le)
    ultimately show ?thesis by simp
  qed
  have nth_f: "line st ! (b + k) = f ! k" if "k < length f" for k
  proof -
    have "line st ! (b + k) = drop b (line st) ! k"
      using len by simp
    then show ?thesis using that by (simp add: dr nth_append)
  qed
  have nth_i: "line st ! i = c"
  proof -
    have "line st ! (b + length f) = drop b (line st) ! length f"
      using len by simp
    then show ?thesis by (simp add: dr i_def)
  qed
  have skip: "\<forall>j \<in> set [b..<i]. line st ! j \<noteq> TAB \<and> line st ! j \<noteq> NUL"
  proof
    fix j assume "j \<in> set [b..<i]"
    then obtain k where k: "j = b + k" "k < length f"
      by (auto simp: i_def intro: that [of "j - b"])
    then have "line st ! j \<in> set f" using nth_f by simp
    with pf show "line st ! j \<noteq> TAB \<and> line st ! j \<noteq> NUL"
      by (auto simp: plain_field_def)
  qed
  have sep: "line st ! i = TAB \<or> line st ! i = NUL"
    by (simp add: nth_i c_def)
  have split: "[b..<length (line st)] = [b..<i] @ i # [Suc i..<length (line st)]"
    by (rule upt_split3) (simp_all add: i_def len)
  have step: "parse_loop svl conf [b..<length (line st)] st =
      (case handle_field svl conf i st of
         Continue st' \<Rightarrow>
           parse_loop svl conf [Suc i..<length (line st)]
             (st'\<lparr>field_b := i + 1, field_id := field_id st' + 1\<rparr>)
       | Break st' \<Rightarrow> Break st'
       | Return r st' \<Rightarrow> Return r st')"
    unfolding split using sep by (simp add: parse_loop_skip [OF skip])
  show ?case
  proof (cases "handle_field svl conf i st")
    case (Continue st')
    have ln': "line st' = line st"
      using handle_field_line [of svl conf i st] Continue by simp
    let ?st2 = "st'\<lparr>field_b := i + 1, field_id := field_id st' + 1\<rparr>"
    show ?thesis
    proof (cases "fs = []")
      case True
      then have "Suc i = length (line st)" by (simp add: len rest_def i_def)
      then show ?thesis
        using step Continue True by (simp add: b_def i_def)
    next
      case False
      have "drop (field_b ?st2) (line ?st2) = join_with TAB fs @ [NUL]"
      proof -
        have "drop (i + 1) (line st) = drop (length f + 1) (drop b (line st))"
          by (simp add: i_def add.commute)
        also have "\<dots> = rest" by (simp add: dr)
        finally show ?thesis using False by (simp add: ln' rest_def)
      qed
      moreover have "\<forall>f \<in> set fs. plain_field f" using Cons.prems(1) by simp
      ultimately have "parse_loop svl conf [field_b ?st2..<length (line ?st2)] ?st2
          = fields_loop svl conf fs ?st2"
        using False by (intro Cons.IH) simp_all
      then show ?thesis
        using step Continue by (simp add: b_def i_def ln')
    qed
  next
    case (Break st')
    then show ?thesis using step by (simp add: b_def i_def)
  next
    case (Return r st')
    then show ?thesis using step by (simp add: b_def i_def)
  qed
qed


subsection \<open>Invariants of the loop\<close>

lemma begin_column_return: "begin_column conf st = Return r st' \<Longrightarrow> r = - 1"
  by (simp add: begin_column_def Let_def split: if_splits)

lemma end_column_return: "end_column st = Return r st' \<Longrightarrow> r = - 1"
  by (simp add: end_column_def Let_def split: if_splits)

lemma format_column_return: "format_column i st \<noteq> Return r st'"
  by (simp add: format_column_def Let_def)

lemma vcf_column_return: "vcf_column svl i st \<noteq> Return r st'"
  by (simp add: vcf_column_def Let_def format_column_return)

lemma handle_field_return: "handle_field svl conf i st = Return r st' \<Longrightarrow> r = - 1"
  by (simp add: handle_field_def vcf_column_return split: if_splits)
    (erule begin_column_return end_column_return)+

lemma parse_loop_inv:
  assumes "P st"
    and cont: "\<And>i st st'. P st \<Longrightarrow> i \<in> set idxs \<Longrightarrow> handle_field svl conf i st = Continue st'
                 \<Longrightarrow> P (st'\<lparr>field_b := i + 1, field_id := field_id st' + 1\<rparr>)"
    and brk: "\<And>i st st'. P st \<Longrightarrow> i \<in> set idxs \<Longrightarrow> handle_field svl conf i st = Break st'
                 \<Longrightarrow> Q st'"
    and fin: "\<And>st. P st \<Longrightarrow> Q st"
  shows "case parse_loop svl conf idxs st of
           Continue st' \<Rightarrow> Q st' | Break st' \<Rightarrow> Q st' | Return r st' \<Rightarrow> r = - 1"
  using assms
proof (induction idxs arbitrary: st)
  case Nil
  then show ?case by simp
next
  case (Cons i idxs)
  have IH: "case parse_loop svl conf idxs st2 of
           Continue st' \<Rightarrow> Q st' | Break st' \<Rightarrow> Q st' | Return r st' \<Rightarrow> r = - 1" if "P st2" for st2
  proof (rule Cons.IH [OF that])
    fix j st st'
    assume "P st" "j \<in> set idxs" "handle_field svl conf j st = Continue st'"
    then show "P (st'\<lparr>field_b := j + 1, field_id := field_id st' + 1\<rparr>)"
      using Cons.prems(2) [of st j st'] by simp
  next
    fix j st st'
    assume "P st" "j \<in> set idxs" "handle_field svl conf j st = Break st'"
    then show "Q st'"
      using Cons.prems(3) [of st j st'] by simp
  next
    fix st assume "P st"
    then show "Q st" by (rule Cons.prems(4))
  qed
  show ?case
  proof (cases "line st ! i = TAB \<or> line st ! i = NUL")
    case False
    then show ?thesis using IH [OF Cons.prems(1)] by simp
  next
    case True
    show ?thesis
    proof (cases "handle_field svl conf i st")
      case (Continue st')
      have "P (st'\<lparr>field_b := i + 1, field_id := field_id st' + 1\<rparr>)"
        using Cons.prems(2) [OF Cons.prems(1) _ Continue] by simp
      from IH [OF this] show ?thesis using True Continue by simp
    next
      case (Break st')
      have "Q st'" using Cons.prems(3) [OF Cons.prems(1) _ Break] by simp
      then show ?thesis using True Break by simp
    next
      case (Return r st')
      then show ?thesis using True handle_field_return [OF Return] by simp
    qed
  qed
qed

text \<open>The same for the return value and final state of \<^verbatim>\<open>tbx_parse1\<close>.\<close>

lemma tbx_parse1_inv:
  assumes "P st"
    and cont: "\<And>i st st'. P st \<Longrightarrow> i \<le> len \<Longrightarrow> handle_field svl conf i st = Continue st'
                 \<Longrightarrow> P (st'\<lparr>field_b := i + 1, field_id := field_id st' + 1\<rparr>)"
    and brk: "\<And>i st st'. P st \<Longrightarrow> i \<le> len \<Longrightarrow> handle_field svl conf i st = Break st'
                 \<Longrightarrow> Q st'"
    and fin: "\<And>st. P st \<Longrightarrow> Q st"
    and res: "tbx_parse1 svl conf len st = (0, st1)"
  shows "\<exists>st2. Q st2 \<and> finish conf st2 = (0, st1)"
proof -
  have *: "case parse_loop svl conf [0..<Suc len] st of
           Continue st' \<Rightarrow> Q st' | Break st' \<Rightarrow> Q st' | Return r st' \<Rightarrow> r = - 1"
  proof (rule parse_loop_inv [where P = P and Q = Q, OF assms(1)])
    fix j st st'
    assume "P st" "j \<in> set [0..<Suc len]" "handle_field svl conf j st = Continue st'"
    then show "P (st'\<lparr>field_b := j + 1, field_id := field_id st' + 1\<rparr>)"
      using cont [of st j st'] by auto
  next
    fix j st st'
    assume "P st" "j \<in> set [0..<Suc len]" "handle_field svl conf j st = Break st'"
    then show "Q st'"
      using brk [of st j st'] by auto
  next
    fix st assume "P st"
    then show "Q st" by (rule fin)
  qed
  show ?thesis
  proof (cases "parse_loop svl conf [0..<Suc len] st")
    case (Continue st')
    with * res show ?thesis by (auto simp: tbx_parse1_def)
  next
    case (Break st')
    with * res show ?thesis by (auto simp: tbx_parse1_def)
  next
    case (Return r st')
    with * res show ?thesis by (auto simp: tbx_parse1_def)
  qed
qed

lemma finish_state:
  "finish conf st = (r, st1) \<Longrightarrow> st1 = (if preset_tag conf = TBX_VCF then vcf_end st else st)"
  by (auto simp: finish_def Let_def split: if_splits)

lemma finish_success:
  "finish conf st = (0, st1) \<Longrightarrow>
     intv_ss st1 \<noteq> None \<and> intv_se st1 \<noteq> None \<and> 0 \<le> intv_beg st1 \<and> 0 \<le> intv_end st1"
  by (auto simp: finish_def Let_def split: if_splits)

lemma vcf_end_frame:
  "line (vcf_end st) = line st"
  "intv_ss (vcf_end st) = intv_ss st"
  "intv_se (vcf_end st) = intv_se st"
  "intv_beg (vcf_end st) = intv_beg st"
  "reported (vcf_end st) = reported st"
  "warnings (vcf_end st) = warnings st"
  by (simp_all add: vcf_end_def Let_def)

lemma tbx_parse1_success:
  assumes "tbx_parse1 svl conf len st0 = (0, st)"
  shows "intv_ss st \<noteq> None \<and> intv_se st \<noteq> None \<and> 0 \<le> intv_beg st \<and> 0 \<le> intv_end st"
proof -
  have "\<exists>st2. True \<and> finish conf st2 = (0, st)"
    by (rule tbx_parse1_inv [where P = "\<lambda>_. True" and Q = "\<lambda>_. True", OF _ _ _ _ assms]) simp_all
  then obtain st2 where "finish conf st2 = (0, st)" by blast
  from finish_success [OF this] show ?thesis by simp
qed


subsection \<open>The range of the numbers read\<close>

lemma digits_nonneg: "0 \<le> acc \<Longrightarrow> 0 \<le> fst (digits base s acc)"
  by (induction s arbitrary: acc) (auto simp: Let_def split: option.splits)

lemma saturate_range: "0 \<le> v \<Longrightarrow> - (2 ^ 63) \<le> saturate neg v \<and> saturate neg v < 2 ^ 63"
  by (simp add: saturate_def)

lemma strtoll_range: "- (2 ^ 63) \<le> fst (strtoll base s) \<and> fst (strtoll base s) < 2 ^ 63"
proof -
  have "- (2 ^ 63) \<le> saturate neg (fst (digits b s' 0)) \<and> saturate neg (fst (digits b s' 0)) < 2 ^ 63"
    for neg b s'
    by (rule saturate_range) (simp add: digits_nonneg)
  then show ?thesis
    by (simp add: strtoll_def Let_def)
qed

lemma strtoll_no_conversion: "snd (strtoll base s) = 0 \<Longrightarrow> fst (strtoll base s) = 0"
  by (simp add: strtoll_def Let_def split: if_splits)

lemma atoll_range: "- (2 ^ 63) \<le> atoll s \<and> atoll s < 2 ^ 63"
  using strtoll_range [of 10 s] by (simp add: atoll_def)

lemma llabs_range: "- (2 ^ 63) \<le> llabs x \<and> llabs x < 2 ^ 63"
  using wrap64_range [of "\<bar>x\<bar>"] by (simp add: llabs_def)

lemma mod_once: "0 \<le> y - M \<Longrightarrow> y - M < M \<Longrightarrow> y mod M = y - (M::int)"
  by (metis minus_mod_self2 mod_pos_pos_trivial)

lemma wrap64_high: "2 ^ 63 \<le> x \<Longrightarrow> x < 2 ^ 64 \<Longrightarrow> wrap64 x = x - 2 ^ 64"
  using mod_once [of "x + 2 ^ 63" "2 ^ 64"] by (simp add: wrap64_def)

lemma svlen_loop_range:
  "0 \<le> sv \<Longrightarrow> sv < 2 ^ 63 \<Longrightarrow> 0 \<le> svlen_loop st s d sv \<and> svlen_loop st s d sv < 2 ^ 63"
proof (induction st s d sv rule: svlen_loop.induct)
  case (1 st s d sv)
  show ?case
  proof (cases s)
    case None
    then show ?thesis using "1.prems" by (subst svlen_loop.simps, subst svlen_loop.simps) simp
  next
    case (Some p)
    show ?thesis
    proof (cases "d < alcnt st")
      case False
      then show ?thesis
        using "1.prems" Some by (subst svlen_loop.simps, subst svlen_loop.simps) simp
    next
      case True
      define t where "t = c_strchr (line st) p (CHR '','')"
      define tmp where "tmp = (if use_svlen st
                           \<and> svlenals st (nat (drop_bit 3 d)) AND push_bit (nat (d AND 7)) 1 \<noteq> 0
                        then (let v = atoll (drop p (line st)) in if v < 0 then llabs v else v)
                        else 1)"
      have tmp: "tmp < 2 ^ 63"
        using atoll_range [of "drop p (line st)"] llabs_range [of "atoll (drop p (line st))"]
        by (simp add: tmp_def Let_def)
      have step: "svlen_loop st s d sv
                  = svlen_loop st (map_option Suc t) (d + 1) (if sv < tmp then tmp else sv)"
        using Some True by (subst svlen_loop.simps) (simp add: t_def tmp_def Let_def)
      have "0 \<le> (if sv < tmp then tmp else sv)" "(if sv < tmp then tmp else sv) < 2 ^ 63"
        using "1.prems" tmp by auto
      then show ?thesis
        unfolding step
        by (intro "1.IH" [OF Some True, of t tmp, unfolded t_def [symmetric] tmp_def [symmetric]])
          (simp_all add: t_def tmp_def)
    qed
  qed
qed

lemma sample_loop_range:
  "- (2 ^ 63) \<le> sample_loop ln lp s d \<and> sample_loop ln lp s d < 2 ^ 63"
proof (induction ln lp s d rule: sample_loop.induct)
  case (1 ln lp s d)
  show ?case
  proof (cases "d \<le> lp")
    case False
    then show ?thesis by (subst sample_loop.simps, subst sample_loop.simps) simp
  next
    case le: True
    show ?thesis
    proof (cases "d = lp")
      case True
      then show ?thesis
        using atoll_range [of "drop s ln"]
        by (subst sample_loop.simps, subst sample_loop.simps) simp
    next
      case False
      show ?thesis
      proof (cases "c_strchr ln s (CHR '':'')")
        case None
        then show ?thesis
          using le False by (subst sample_loop.simps, subst sample_loop.simps) simp
      next
        case (Some t)
        have "sample_loop ln lp s d = sample_loop ln lp (t + 1) (d + 1)"
          using le False Some by (subst sample_loop.simps) simp
        then show ?thesis using "1.IH" [OF le False Some] by simp
      qed
    qed
  qed
qed

subsection \<open>The coordinates of a VCF line\<close>

lemma vcf_inv_fields [simp]:
  "vcf_inv len (st\<lparr>field_b := b, field_id := k\<rparr>) = vcf_inv len st"
  "vcf_inv len (st\<lparr>intv_ss := x, intv_se := y\<rparr>) = vcf_inv len st"
  by (simp_all add: vcf_inv_def)

lemma begin_column_clamp:
  assumes "begin_column conf st = Continue st'"
  shows "0 \<le> intv_beg st' \<and> intv_beg st' < 2 ^ 63 \<and> 1 \<le> intv_end st'
         \<and> reflen st' = reflen st \<and> svlen st' = svlen st \<and> fmtlen st' = fmtlen st"
proof -
  define r where "r = strtoll 0 (drop (field_b st) (line st))"
  have r: "fst r < 2 ^ 63" using strtoll_range [of 0 "drop (field_b st) (line st)"] by (simp add: r_def)
  have w: "wrap64 (fst r - 1) < 2 ^ 63" using wrap64_range by simp
  from assms r w show ?thesis
    by (simp add: begin_column_def Let_def r_def [symmetric] split: if_splits) auto
qed

lemma vcf_inv_begin_column:
  "vcf_inv len st \<Longrightarrow> begin_column conf st = Continue st' \<Longrightarrow> vcf_inv len st'"
  using begin_column_clamp [of conf st st'] by (simp add: vcf_inv_def)

lemma vcf_inv_ref_column:
  assumes "vcf_inv len st" "i \<le> len" "len < 2 ^ 63"
  shows "vcf_inv len (ref_column i st)"
proof -
  define n where "n = int (i - field_b st)"
  have n: "0 \<le> n" "n \<le> int len" "n < 2 ^ 63"
    using assms(2,3) by (simp_all add: n_def)
  have rl: "reflen (ref_column i st) = n"
    by (simp add: ref_column_def Let_def n_def)
  have en: "intv_end (ref_column i st) = (if 0 < n then wrap64 (intv_beg st + n) else intv_end st)"
    by (auto simp: ref_column_def Let_def n_def)
  have w: "1 \<le> wrap64 (intv_beg st + n) \<or> (wrap64 (intv_beg st + n) < 0 \<and> 0 < intv_beg st)"
    if "0 \<le> intv_beg st" "0 < n"
  proof (cases "intv_beg st + n < 2 ^ 63")
    case True
    then have "wrap64 (intv_beg st + n) = intv_beg st + n"
      using that by (intro wrap64_id) simp_all
    then show ?thesis using that by simp
  next
    case False
    have b: "intv_beg st < 2 ^ 63" using assms(1) by (simp add: vcf_inv_def)
    have "wrap64 (intv_beg st + n) = intv_beg st + n - 2 ^ 64"
      using False n b by (intro wrap64_high) simp_all
    then show ?thesis using False n b by simp
  qed
  show ?thesis
    using assms(1) n w
    by (simp add: vcf_inv_def rl en ref_column_frame)
qed

lemma vcf_inv_info_end: "vcf_inv len st \<Longrightarrow> vcf_inv len (info_end st)"
  by (auto simp: vcf_inv_def info_end_def Let_def split: option.splits)

lemma vcf_inv_info_column: "vcf_inv len st \<Longrightarrow> vcf_inv len (info_column i st)"
proof -
  assume a: "vcf_inv len st"
  define st1 where "st1 = info_end (st\<lparr>line := (line st)[i := NUL]\<rparr>)"
  have "vcf_inv len (st\<lparr>line := (line st)[i := NUL]\<rparr>)"
    using a by (simp add: vcf_inv_def)
  then have 1: "vcf_inv len st1"
    unfolding st1_def by (rule vcf_inv_info_end)
  define sv where "sv = svlen_loop st1 (info_key (line st1) (field_b st1) ''SVLEN='') 1 (svlen st1)"
  have "0 \<le> sv \<and> sv < 2 ^ 63"
    unfolding sv_def using 1 by (intro svlen_loop_range) (simp_all add: vcf_inv_def)
  moreover have "info_column i st = st1\<lparr>svlen := sv, line := (line st1)[i := line st ! i]\<rparr>"
    by (simp add: info_column_def Let_def st1_def sv_def info_end_frame)
  ultimately show ?thesis
    using 1 by (simp add: vcf_inv_def)
qed

lemma vcf_inv_alt_column: "vcf_inv len st \<Longrightarrow> vcf_inv len (alt_column svl i st)"
  by (simp add: vcf_inv_def alt_column_frame)

lemma vcf_inv_format_column: "vcf_inv len st \<Longrightarrow> vcf_inv len (flow_state (format_column i st))"
  by (simp add: vcf_inv_def format_column_frame)

lemma vcf_inv_sample_column: "vcf_inv len st \<Longrightarrow> vcf_inv len (sample_column i st)"
proof -
  assume a: "vcf_inv len st"
  define tmp where "tmp = sample_loop ((line st)[i := NUL]) (lenpos st) (field_b st) 0"
  have "tmp < 2 ^ 63" using sample_loop_range by (simp add: tmp_def)
  moreover have "fmtlen (sample_column i st) = (if fmtlen st < tmp then tmp else fmtlen st)"
    by (simp add: sample_column_def Let_def tmp_def)
  ultimately show ?thesis
    using a by (simp add: vcf_inv_def sample_column_frame)
qed

lemma vcf_inv_vcf_column:
  assumes "vcf_inv len st" "i \<le> len" "len < 2 ^ 63"
  shows "vcf_inv len (flow_state (vcf_column svl i st))"
proof -
  define st1 where "st1 = (if field_id st = 4 then ref_column i st else st)"
  have 1: "vcf_inv len st1"
    using assms by (simp add: st1_def vcf_inv_ref_column)
  show ?thesis
    using 1 unfolding vcf_column_def Let_def st1_def [symmetric]
    by (simp add: vcf_inv_alt_column vcf_inv_info_column vcf_inv_format_column
        vcf_inv_sample_column)
qed

lemma vcf_inv_handle_field:
  assumes "preset_tag conf = TBX_VCF" "vcf_inv len st" "i \<le> len" "len < 2 ^ 63"
    and "handle_field svl conf i st = Continue st' \<or> handle_field svl conf i st = Break st'"
  shows "vcf_inv len st'"
proof -
  have tags: "TBX_VCF \<noteq> TBX_GAF" "TBX_VCF \<noteq> TBX_GENERIC" "TBX_VCF \<noteq> TBX_SAM"
    by (simp_all add: TBX_VCF_def TBX_GAF_def TBX_GENERIC_def TBX_SAM_def)
  consider (sc) "field_id st = sc conf"
    | (bc) "field_id st \<noteq> sc conf" "field_id st = bc conf"
    | (vcf) "field_id st \<noteq> sc conf" "field_id st \<noteq> bc conf"
    by blast
  then show ?thesis
  proof cases
    case sc
    with assms(5) have "st' = st\<lparr>intv_ss := Some (field_b st), intv_se := Some i\<rparr>"
      by (auto simp: handle_field_def)
    with assms(2) show ?thesis by simp
  next
    case bc
    with assms(1,5) tags have "begin_column conf st = Continue st' \<or> begin_column conf st = Break st'"
      by (simp add: handle_field_def)
    moreover have "begin_column conf st \<noteq> Break st'"
      by (simp add: begin_column_def Let_def)
    ultimately show ?thesis using assms(2) vcf_inv_begin_column by blast
  next
    case vcf
    with assms(1,5) tags have "vcf_column svl i st = Continue st' \<or> vcf_column svl i st = Break st'"
      by (simp add: handle_field_def)
    then have "st' = flow_state (vcf_column svl i st)" by auto
    with assms show ?thesis by (simp add: vcf_inv_vcf_column)
  qed
qed

lemma vcf_inv_end:
  assumes "vcf_inv len st" "len < 2 ^ 63" "0 \<le> intv_beg st" "0 \<le> intv_end (vcf_end st)"
  shows "1 \<le> intv_end (vcf_end st)"
proof -
  define m where "m = (if reflen st < svlen st
                 then (if svlen st < fmtlen st then fmtlen st else svlen st)
                 else (if reflen st < fmtlen st then fmtlen st else reflen st))"
  have m: "0 \<le> m" "m < 2 ^ 63"
    using assms(1,2) by (auto simp: m_def vcf_inv_def)
  have e: "intv_end (vcf_end st)
           = (if intv_end st < wrap64 (m + intv_beg st) then wrap64 (m + intv_beg st) else intv_end st)"
    by (simp add: vcf_end_def Let_def m_def)
  show ?thesis
  proof (cases "1 \<le> intv_end st")
    case True
    then show ?thesis by (simp add: e)
  next
    case False
    with assms(1,3) have neg: "intv_end st < 0" "0 < intv_beg st" "intv_beg st < 2 ^ 63"
      by (auto simp: vcf_inv_def)
    have "wrap64 (m + intv_beg st) \<noteq> 0"
    proof (cases "m + intv_beg st < 2 ^ 63")
      case True
      then have "wrap64 (m + intv_beg st) = m + intv_beg st"
        using m neg by (intro wrap64_id) simp_all
      then show ?thesis using m neg by simp
    next
      case False
      have "wrap64 (m + intv_beg st) = m + intv_beg st - 2 ^ 64"
        using m neg False by (intro wrap64_high) simp_all
      then show ?thesis using m neg by simp
    qed
    with assms(4) neg show ?thesis by (simp add: e split: if_splits)
  qed
qed


subsection \<open>The latch and the log\<close>

lemma parse_loop_inv_all:
  assumes "P st"
    and cont: "\<And>i st st'. P st \<Longrightarrow> i \<in> set idxs \<Longrightarrow> handle_field svl conf i st = Continue st'
                 \<Longrightarrow> P (st'\<lparr>field_b := i + 1, field_id := field_id st' + 1\<rparr>)"
    and stop: "\<And>i st. P st \<Longrightarrow> i \<in> set idxs \<Longrightarrow> Q (flow_state (handle_field svl conf i st))"
    and fin: "\<And>st. P st \<Longrightarrow> Q st"
  shows "Q (flow_state (parse_loop svl conf idxs st))"
  using assms
proof (induction idxs arbitrary: st)
  case Nil
  then show ?case by simp
next
  case (Cons i idxs)
  have IH: "Q (flow_state (parse_loop svl conf idxs st2))" if "P st2" for st2
  proof (rule Cons.IH [OF that])
    fix j st st'
    assume "P st" "j \<in> set idxs" "handle_field svl conf j st = Continue st'"
    then show "P (st'\<lparr>field_b := j + 1, field_id := field_id st' + 1\<rparr>)"
      using Cons.prems(2) [of st j st'] by simp
  next
    fix j st
    assume "P st" "j \<in> set idxs"
    then show "Q (flow_state (handle_field svl conf j st))"
      using Cons.prems(3) [of st j] by simp
  next
    fix st assume "P st"
    then show "Q st" by (rule Cons.prems(4))
  qed
  show ?case
  proof (cases "line st ! i = TAB \<or> line st ! i = NUL")
    case False
    then show ?thesis using IH [OF Cons.prems(1)] by simp
  next
    case True
    have stop: "Q (flow_state (handle_field svl conf i st))"
      using Cons.prems(3) [OF Cons.prems(1), of i] by simp
    show ?thesis
    proof (cases "handle_field svl conf i st")
      case (Continue st')
      have "P (st'\<lparr>field_b := i + 1, field_id := field_id st' + 1\<rparr>)"
        using Cons.prems(2) [OF Cons.prems(1) _ Continue] by simp
      from IH [OF this] show ?thesis using True Continue by simp
    next
      case (Break st')
      then show ?thesis using True stop by simp
    next
      case (Return r st')
      then show ?thesis using True stop by simp
    qed
  qed
qed

lemma tbx_parse1_state:
  "snd (tbx_parse1 svl conf len st) = flow_state (parse_loop svl conf [0..<Suc len] st)
   \<or> snd (tbx_parse1 svl conf len st)
        = snd (finish conf (flow_state (parse_loop svl conf [0..<Suc len] st)))"
  by (cases "parse_loop svl conf [0..<Suc len] st") (simp_all add: tbx_parse1_def)

lemma finish_log:
  "warnings (snd (finish conf st)) = warnings st" "reported (snd (finish conf st)) = reported st"
  by (simp_all add: finish_def Let_def vcf_end_frame)

text \<open>What one turn of the loop does to the latch and the log.\<close>

lemma begin_column_log:
  "reported (flow_state (begin_column conf st)) = reported st
   \<and> (warnings (flow_state (begin_column conf st)) = warnings st
      \<or> warnings (flow_state (begin_column conf st)) = warnings st @ [Warn_coordinate])"
  by (simp add: begin_column_def Let_def)

lemma info_end_log:
  "(reported (info_end st) = reported st \<and> warnings (info_end st) = warnings st)
   \<or> (\<not> reported st \<and> reported (info_end st)
       \<and> (\<exists>e. warnings (info_end st) = warnings st @ [Warn_info_end e]))"
  by (simp add: info_end_def Let_def split: option.splits)

lemma info_column_log:
  "(reported (info_column i st) = reported st \<and> warnings (info_column i st) = warnings st)
   \<or> (\<not> reported st \<and> reported (info_column i st)
       \<and> (\<exists>e. warnings (info_column i st) = warnings st @ [Warn_info_end e]))"
  using info_end_log [of "st\<lparr>line := (line st)[i := NUL]\<rparr>"]
  by (simp add: info_column_def Let_def)

lemma vcf_column_log:
  "(reported (flow_state (vcf_column svl i st)) = reported st
      \<and> warnings (flow_state (vcf_column svl i st)) = warnings st)
   \<or> (\<not> reported st \<and> reported (flow_state (vcf_column svl i st))
       \<and> (\<exists>e. warnings (flow_state (vcf_column svl i st)) = warnings st @ [Warn_info_end e]))"
proof -
  define st1 where "st1 = (if field_id st = 4 then ref_column i st else st)"
  have 1: "reported st1 = reported st" "warnings st1 = warnings st"
    by (simp_all add: st1_def ref_column_frame)
  show ?thesis
    using info_column_log [of i st1]
    unfolding vcf_column_def Let_def st1_def [symmetric]
    by (simp add: 1 alt_column_frame format_column_frame sample_column_frame)
qed

lemma handle_field_log:
  "(reported (flow_state (handle_field svl conf i st)) = reported st
      \<and> warnings (flow_state (handle_field svl conf i st)) = warnings st)
   \<or> (\<not> reported st \<and> reported (flow_state (handle_field svl conf i st))
       \<and> (\<exists>e. warnings (flow_state (handle_field svl conf i st)) = warnings st @ [Warn_info_end e]))
   \<or> (field_id st = bc conf \<and> reported (flow_state (handle_field svl conf i st)) = reported st
       \<and> warnings (flow_state (handle_field svl conf i st)) = warnings st @ [Warn_coordinate])"
proof (cases "field_id st = sc conf")
  case True
  then show ?thesis by (simp add: handle_field_def)
next
  case nsc: False
  show ?thesis
  proof (cases "field_id st = bc conf")
    case True
    show ?thesis
    proof (cases "preset_tag conf = TBX_GAF")
      case gaf: True
      with nsc True show ?thesis by (simp add: handle_field_def gaf_column_frame)
    next
      case False
      with nsc True have "handle_field svl conf i st = begin_column conf st"
        by (simp add: handle_field_def)
      then show ?thesis using begin_column_log [of conf st] True by auto
    qed
  next
    case nbc: False
    have "handle_field svl conf i st = end_column st \<or> handle_field svl conf i st = Continue st
          \<or> handle_field svl conf i st = Continue (cigar_column i st)
          \<or> handle_field svl conf i st = vcf_column svl i st"
      using nsc nbc by (simp add: handle_field_def)
    then show ?thesis
      using vcf_column_log [of svl i st]
      by (elim disjE) (simp_all add: end_column_frame cigar_column_frame)
  qed
qed

lemma n_info_end_append [simp]:
  "n_info_end (ws @ [Warn_info_end e]) = Suc (n_info_end ws)"
  "n_info_end (ws @ [Warn_coordinate]) = n_info_end ws"
  by (simp_all add: n_info_end_def)

lemma n_coordinate_append [simp]:
  "n_coordinate (ws @ [Warn_info_end e]) = n_coordinate ws"
  "n_coordinate (ws @ [Warn_coordinate]) = Suc (n_coordinate ws)"
  by (simp_all add: n_coordinate_def)

lemma handle_field_latch:
  assumes "n_info_end (warnings st) \<le> (if reported st then 1 else 0)"
  shows "n_info_end (warnings (flow_state (handle_field svl conf i st)))
         \<le> (if reported (flow_state (handle_field svl conf i st)) then 1 else 0)"
  using assms handle_field_log [of svl conf i st] by (auto split: if_splits)

lemma tbx_parse1_latch:
  assumes "n_info_end (warnings st) \<le> (if reported st then 1 else 0)"
  shows "n_info_end (warnings (snd (tbx_parse1 svl conf len st)))
         \<le> (if reported (snd (tbx_parse1 svl conf len st)) then 1 else 0)"
proof -
  let ?P = "\<lambda>st. n_info_end (warnings st) \<le> (if reported st then 1 else 0)"
  have "?P (flow_state (parse_loop svl conf [0..<Suc len] st))"
  proof (rule parse_loop_inv_all [where P = ?P and Q = ?P, OF assms])
    fix i and st0 st' :: parse_state
    assume "?P st0" "handle_field svl conf i st0 = Continue st'"
    then show "?P (st'\<lparr>field_b := i + 1, field_id := field_id st' + 1\<rparr>)"
      using handle_field_latch [of st0 svl conf i] by simp
  next
    fix i and st0 :: parse_state
    assume "?P st0"
    then show "?P (flow_state (handle_field svl conf i st0))"
      by (rule handle_field_latch)
  qed
  then show ?thesis
    using tbx_parse1_state [of svl conf len st] by (auto simp: finish_log)
qed

lemma handle_field_coordinate:
  "n_coordinate (warnings (flow_state (handle_field svl conf i st)))
     \<le> n_coordinate (warnings st) + (if field_id st = bc conf then 1 else 0)"
  using handle_field_log [of svl conf i st] by auto

lemma tbx_parse1_coordinate:
  "n_coordinate (warnings (snd (tbx_parse1 svl conf len st))) \<le> n_coordinate (warnings st) + 1"
proof -
  define c0 where "c0 = n_coordinate (warnings st)"
  let ?P = "\<lambda>st. n_coordinate (warnings st) \<le> c0 + (if bc conf < field_id st then 1 else 0)"
  let ?Q = "\<lambda>st. n_coordinate (warnings st) \<le> c0 + 1"
  have "?Q (flow_state (parse_loop svl conf [0..<Suc len] st))"
  proof (rule parse_loop_inv_all [where P = ?P and Q = ?Q])
    show "?P st" by (simp add: c0_def)
  next
    fix i and st0 st' :: parse_state
    assume "?P st0" "handle_field svl conf i st0 = Continue st'"
    then show "?P (st'\<lparr>field_b := i + 1, field_id := field_id st' + 1\<rparr>)"
      using handle_field_coordinate [of svl conf i st0] handle_field_frame(2) [of svl conf i st0]
      by (auto split: if_splits)
  next
    fix i and st0 :: parse_state
    assume "?P st0"
    then show "?Q (flow_state (handle_field svl conf i st0))"
      using handle_field_coordinate [of svl conf i st0] by (auto split: if_splits)
  next
    fix st0 :: parse_state assume "?P st0"
    then show "?Q st0" by (auto split: if_splits)
  qed
  then show ?thesis
    using tbx_parse1_state [of svl conf len st] by (auto simp: finish_log c0_def)
qed

lemma init_state_log [simp]:
  "warnings (init_state ln stack rep ws) = ws" "reported (init_state ln stack rep ws) = rep"
  by (simp_all add: init_state_def)

lemma parse_calls_latch:
  "n_info_end (snd g) \<le> (if fst g then 1 else 0)
   \<Longrightarrow> n_info_end (snd (parse_calls svl calls g)) \<le> (if fst (parse_calls svl calls g) then 1 else 0)"
proof (induction calls arbitrary: g)
  case Nil
  then show ?case by simp
next
  case (Cons c calls)
  obtain conf stack len ln where c: "c = (conf, stack, len, ln)"
    by (cases c) auto
  define st where "st = snd (tbx_parse1 svl conf len (init_state ln stack (fst g) (snd g)))"
  have "n_info_end (warnings st) \<le> (if reported st then 1 else 0)"
    unfolding st_def using Cons.prems by (intro tbx_parse1_latch) simp
  then have "n_info_end (snd (parse_calls svl calls (reported st, warnings st)))
      \<le> (if fst (parse_calls svl calls (reported st, warnings st)) then 1 else 0)"
    by (intro Cons.IH) simp
  then show ?case by (simp add: c st_def Let_def)
qed

lemma parse_calls_coordinate:
  "n_coordinate (snd (parse_calls svl calls g)) \<le> n_coordinate (snd g) + length calls"
proof (induction calls arbitrary: g)
  case Nil
  then show ?case by simp
next
  case (Cons c calls)
  obtain conf stack len ln where c: "c = (conf, stack, len, ln)"
    by (cases c) auto
  define st where "st = snd (tbx_parse1 svl conf len (init_state ln stack (fst g) (snd g)))"
  have "n_coordinate (warnings st) \<le> n_coordinate (snd g) + 1"
    unfolding st_def using tbx_parse1_coordinate [of svl conf len "init_state ln stack (fst g) (snd g)"]
    by simp
  moreover have "n_coordinate (snd (parse_calls svl calls (reported st, warnings st)))
      \<le> n_coordinate (warnings st) + length calls"
    using Cons.IH [of "(reported st, warnings st)"] by simp
  ultimately show ?case by (simp add: c st_def Let_def)
qed


subsection \<open>Rules for the loop over the indices and over the fields\<close>

lemma parse_loop_upt_inv:
  assumes "P st" "field_b st \<le> j"
    and cont: "\<And>i st st'. P st \<Longrightarrow> field_b st \<le> i \<Longrightarrow> i < n
                 \<Longrightarrow> handle_field svl conf i st = Continue st'
                 \<Longrightarrow> P (st'\<lparr>field_b := i + 1, field_id := field_id st' + 1\<rparr>)"
    and brk: "\<And>i st st'. P st \<Longrightarrow> field_b st \<le> i \<Longrightarrow> i < n
                 \<Longrightarrow> handle_field svl conf i st = Break st' \<Longrightarrow> Q st'"
    and fin: "\<And>st. P st \<Longrightarrow> Q st"
  shows "case parse_loop svl conf [j..<n] st of
           Continue st' \<Rightarrow> Q st' | Break st' \<Rightarrow> Q st' | Return r st' \<Rightarrow> r = - 1"
  using assms(1,2)
proof (induction "n - j" arbitrary: j st)
  case 0
  then show ?case using fin by simp
next
  case (Suc d)
  then have jn: "j < n" by simp
  then have up: "[j..<n] = j # [Suc j..<n]" by (simp add: upt_conv_Cons)
  have d: "d = n - Suc j" using Suc.hyps(2) by simp
  show ?case
  proof (cases "line st ! j = TAB \<or> line st ! j = NUL")
    case False
    then show ?thesis
      unfolding up using Suc.hyps(1) [OF d Suc.prems(1)] Suc.prems(2) by simp
  next
    case True
    show ?thesis
    proof (cases "handle_field svl conf j st")
      case (Continue st')
      have "P (st'\<lparr>field_b := j + 1, field_id := field_id st' + 1\<rparr>)"
        using cont [OF Suc.prems(1,2) jn Continue] .
      from Suc.hyps(1) [OF d this] show ?thesis
        unfolding up using True Continue by simp
    next
      case (Break st')
      have "Q st'" using brk [OF Suc.prems(1,2) jn Break] .
      then show ?thesis unfolding up using True Break by simp
    next
      case (Return r st')
      then show ?thesis
        unfolding up using True handle_field_return [OF Return] by simp
    qed
  qed
qed

lemma tbx_parse1_result: "fst (tbx_parse1 svl conf len st) = 0 \<or> fst (tbx_parse1 svl conf len st) = - 1"
proof -
  have "case parse_loop svl conf [0..<Suc len] st of
           Continue st' \<Rightarrow> True | Break st' \<Rightarrow> True | Return r st' \<Rightarrow> r = - 1"
    by (rule parse_loop_inv [where P = "\<lambda>_. True" and Q = "\<lambda>_. True"]) simp_all
  moreover have "fst (finish conf st2) = 0 \<or> fst (finish conf st2) = - 1" for st2
    by (simp add: finish_def Let_def)
  ultimately show ?thesis
    by (cases "parse_loop svl conf [0..<Suc len] st") (simp_all add: tbx_parse1_def)
qed

text \<open>A line of plain fields is parsed field by field.\<close>

lemma parse_line_fields:
  assumes "\<forall>f \<in> set fs. plain_field f" "fs \<noteq> []"
  shows "parse_line svl conf stack rep ws (tsv fs) =
     (case fields_loop svl conf fs (init_state (kstring (tsv fs)) stack rep ws) of
        Return r st \<Rightarrow> (r, st)
      | Break st \<Rightarrow> finish conf st
      | Continue st \<Rightarrow> finish conf st)"
proof -
  define st0 where "st0 = init_state (kstring (tsv fs)) stack rep ws"
  have b: "field_b st0 = 0" and l: "line st0 = tsv fs @ [NUL]"
    by (simp_all add: st0_def init_state_def kstring_def)
  have "parse_loop svl conf [field_b st0..<length (line st0)] st0 = fields_loop svl conf fs st0"
    using assms by (intro parse_loop_fields) (simp_all add: b l tsv_def)
  then have "parse_loop svl conf [0..<Suc (length (tsv fs))] st0 = fields_loop svl conf fs st0"
    by (simp add: b l)
  then show ?thesis
    by (simp add: parse_line_def tbx_parse1_def st0_def)
qed

text \<open>
  The rule for the loop over the fields: at the \<open>k\<close>-th field (from 0) the id is \<open>k + 1\<close> and
  the buffer from \<open>b\<close> on holds the fields from the \<open>k\<close>-th on.
\<close>

lemma fields_loop_rule:
  assumes plain: "\<forall>f \<in> set fs. plain_field f"
    and init: "P k st" "k \<le> length fs" "field_id st = 1 + int k"
      "k < length fs \<longrightarrow> drop (field_b st) (line st) = join_with TAB (drop k fs) @ [NUL]"
    and cont: "\<And>k st st'. P k st \<Longrightarrow> k < length fs \<Longrightarrow> field_id st = 1 + int k
        \<Longrightarrow> drop (field_b st) (line st) = join_with TAB (drop k fs) @ [NUL]
        \<Longrightarrow> handle_field svl conf (field_b st + length (fs ! k)) st = Continue st'
        \<Longrightarrow> P (Suc k) (st'\<lparr>field_b := field_b st + length (fs ! k) + 1,
                               field_id := field_id st' + 1\<rparr>)"
    and brk: "\<And>k st st'. P k st \<Longrightarrow> k < length fs \<Longrightarrow> field_id st = 1 + int k
        \<Longrightarrow> drop (field_b st) (line st) = join_with TAB (drop k fs) @ [NUL]
        \<Longrightarrow> handle_field svl conf (field_b st + length (fs ! k)) st = Break st'
        \<Longrightarrow> Q st'"
    and fin: "\<And>st. P (length fs) st \<Longrightarrow> Q st"
  shows "case fields_loop svl conf (drop k fs) st of
           Continue st' \<Rightarrow> Q st' | Break st' \<Rightarrow> Q st' | Return r st' \<Rightarrow> r = - 1"
  using init
proof (induction "length fs - k" arbitrary: k st)
  case 0
  then have "drop k fs = []" by simp
  moreover have "k = length fs" using 0 by simp
  ultimately show ?case using fin "0.prems"(1) by simp
next
  case (Suc d)
  then have k: "k < length fs" by simp
  then have dk: "drop k fs = fs ! k # drop (Suc k) fs" by (simp add: Cons_nth_drop_Suc)
  have dr: "drop (field_b st) (line st) = join_with TAB (drop k fs) @ [NUL]"
    using Suc.prems(4) k by simp
  have d: "d = length fs - Suc k" using Suc.hyps(2) by simp
  let ?i = "field_b st + length (fs ! k)"
  show ?case
  proof (cases "handle_field svl conf ?i st")
    case (Continue st')
    let ?st2 = "st'\<lparr>field_b := ?i + 1, field_id := field_id st' + 1\<rparr>"
    have P2: "P (Suc k) ?st2"
      using cont [OF Suc.prems(1) k Suc.prems(3) dr Continue] by simp
    have ln: "line st' = line st" and fid: "field_id st' = field_id st"
      using handle_field_line [of svl conf ?i st] handle_field_frame(2) [of svl conf ?i st] Continue
      by simp_all
    have id2: "field_id ?st2 = 1 + int (Suc k)"
      using Suc.prems(3) by (simp add: fid)
    have dr2: "Suc k < length fs \<longrightarrow>
        drop (field_b ?st2) (line ?st2) = join_with TAB (drop (Suc k) fs) @ [NUL]"
    proof
      assume "Suc k < length fs"
      then have ne: "drop (Suc k) fs \<noteq> []" by simp
      have "drop (?i + 1) (line st) = drop (length (fs ! k) + 1) (drop (field_b st) (line st))"
        by (simp add: add.commute)
      also have "\<dots> = join_with TAB (drop (Suc k) fs) @ [NUL]"
        using ne by (simp add: dr dk join_with_Cons)
      finally show "drop (field_b ?st2) (line ?st2) = join_with TAB (drop (Suc k) fs) @ [NUL]"
        by (simp add: ln)
    qed
    have "case fields_loop svl conf (drop (Suc k) fs) ?st2 of
           Continue st' \<Rightarrow> Q st' | Break st' \<Rightarrow> Q st' | Return r st' \<Rightarrow> r = - 1"
      using k by (intro Suc.hyps(1) [OF d P2 _ id2 dr2]) simp
    then show ?thesis using Continue by (simp add: dk)
  next
    case (Break st')
    have "Q st'" using brk [OF Suc.prems(1) k Suc.prems(3) dr Break] .
    then show ?thesis using Break by (simp add: dk)
  next
    case (Return r st')
    then show ?thesis using handle_field_return [OF Return] by (simp add: dk)
  qed
qed

text \<open>The rule for a whole line: what holds of the state a successful parse finishes on.\<close>

lemma parse_line_rule:
  assumes plain: "\<forall>f \<in> set fs. plain_field f" "fs \<noteq> []"
    and init: "P 0 (init_state (kstring (tsv fs)) stack rep ws)"
    and cont: "\<And>k st st'. P k st \<Longrightarrow> k < length fs \<Longrightarrow> field_id st = 1 + int k
        \<Longrightarrow> drop (field_b st) (line st) = join_with TAB (drop k fs) @ [NUL]
        \<Longrightarrow> handle_field svl conf (field_b st + length (fs ! k)) st = Continue st'
        \<Longrightarrow> P (Suc k) (st'\<lparr>field_b := field_b st + length (fs ! k) + 1,
                               field_id := field_id st' + 1\<rparr>)"
    and brk: "\<And>k st st'. P k st \<Longrightarrow> k < length fs \<Longrightarrow> field_id st = 1 + int k
        \<Longrightarrow> drop (field_b st) (line st) = join_with TAB (drop k fs) @ [NUL]
        \<Longrightarrow> handle_field svl conf (field_b st + length (fs ! k)) st = Break st'
        \<Longrightarrow> Q st'"
    and fin: "\<And>st. P (length fs) st \<Longrightarrow> Q st"
    and ok: "fst (parse_line svl conf stack rep ws (tsv fs)) = 0"
  shows "\<exists>st. Q st \<and> finish conf st = (0, snd (parse_line svl conf stack rep ws (tsv fs)))"
proof -
  define st0 where "st0 = init_state (kstring (tsv fs)) stack rep ws"
  have "case fields_loop svl conf (drop 0 fs) st0 of
           Continue st' \<Rightarrow> Q st' | Break st' \<Rightarrow> Q st' | Return r st' \<Rightarrow> r = - 1"
  proof (rule fields_loop_rule [where P = P and Q = Q, OF plain(1)])
    show "P 0 st0" using init by (simp add: st0_def)
    show "field_id st0 = 1 + int 0" by (simp add: st0_def init_state_def)
    show "0 < length fs \<longrightarrow> drop (field_b st0) (line st0) = join_with TAB (drop 0 fs) @ [NUL]"
      by (simp add: st0_def init_state_def kstring_def tsv_def)
  qed (use cont brk fin in auto)
  then have *: "case fields_loop svl conf fs st0 of
           Continue st' \<Rightarrow> Q st' | Break st' \<Rightarrow> Q st' | Return r st' \<Rightarrow> r = - 1"
    by simp
  have pl: "parse_line svl conf stack rep ws (tsv fs) =
     (case fields_loop svl conf fs st0 of
        Return r st \<Rightarrow> (r, st) | Break st \<Rightarrow> finish conf st | Continue st \<Rightarrow> finish conf st)"
    unfolding st0_def by (rule parse_line_fields [OF plain])
  show ?thesis
  proof (cases "fields_loop svl conf fs st0")
    case (Continue st)
    with * ok pl show ?thesis by (auto simp: prod_eq_iff)
  next
    case (Break st)
    with * ok pl show ?thesis by (auto simp: prod_eq_iff)
  next
    case (Return r st)
    with * ok pl show ?thesis by auto
  qed
qed


subsection \<open>What a column does to the name slice and to the begin coordinate\<close>

lemma handle_field_slice:
  "intv_ss (flow_state (handle_field svl conf i st))
     = (if field_id st = sc conf then Some (field_b st) else intv_ss st)"
  "intv_se (flow_state (handle_field svl conf i st))
     = (if field_id st = sc conf then Some i else intv_se st)"
  by (simp_all add: handle_field_def gaf_column_frame begin_column_frame end_column_frame
      cigar_column_frame vcf_column_frame)

lemma handle_field_beg_frame:
  "field_id st \<noteq> bc conf \<or> field_id st = sc conf
   \<Longrightarrow> intv_beg (flow_state (handle_field svl conf i st)) = intv_beg st"
  by (auto simp: handle_field_def end_column_frame cigar_column_frame vcf_column_frame)

lemma begin_column_converts:
  "begin_column conf st = Continue st' \<Longrightarrow> snd (strtoll 0 (drop (field_b st) (line st))) \<noteq> 0"
  by (auto simp: begin_column_def Let_def split: if_splits)

lemma handle_field_begin:
  "field_id st = bc conf \<Longrightarrow> field_id st \<noteq> sc conf \<Longrightarrow> preset_tag conf \<noteq> TBX_GAF
   \<Longrightarrow> handle_field svl conf i st = begin_column conf st"
  by (simp add: handle_field_def)

lemma tbx_parse1_upt_inv:
  assumes "P st" "field_b st = 0"
    and cont: "\<And>i st st'. P st \<Longrightarrow> field_b st \<le> i \<Longrightarrow> i \<le> len
                 \<Longrightarrow> handle_field svl conf i st = Continue st'
                 \<Longrightarrow> P (st'\<lparr>field_b := i + 1, field_id := field_id st' + 1\<rparr>)"
    and brk: "\<And>i st st'. P st \<Longrightarrow> field_b st \<le> i \<Longrightarrow> i \<le> len
                 \<Longrightarrow> handle_field svl conf i st = Break st' \<Longrightarrow> Q st'"
    and fin: "\<And>st. P st \<Longrightarrow> Q st"
    and res: "tbx_parse1 svl conf len st = (0, st1)"
  shows "\<exists>st2. Q st2 \<and> finish conf st2 = (0, st1)"
proof -
  have *: "case parse_loop svl conf [0..<Suc len] st of
           Continue st' \<Rightarrow> Q st' | Break st' \<Rightarrow> Q st' | Return r st' \<Rightarrow> r = - 1"
  proof (rule parse_loop_upt_inv [where P = P and Q = Q, OF assms(1)])
    show "field_b st \<le> 0" using assms(2) by simp
  next
    fix j st st'
    assume "P st" "field_b st \<le> j" "j < Suc len" "handle_field svl conf j st = Continue st'"
    then show "P (st'\<lparr>field_b := j + 1, field_id := field_id st' + 1\<rparr>)"
      using cont [of st j st'] by auto
  next
    fix j st st'
    assume "P st" "field_b st \<le> j" "j < Suc len" "handle_field svl conf j st = Break st'"
    then show "Q st'"
      using brk [of st j st'] by auto
  next
    fix st assume "P st"
    then show "Q st" by (rule fin)
  qed
  show ?thesis
  proof (cases "parse_loop svl conf [0..<Suc len] st")
    case (Continue st')
    with * res show ?thesis by (auto simp: tbx_parse1_def)
  next
    case (Break st')
    with * res show ?thesis by (auto simp: tbx_parse1_def)
  next
    case (Return r st')
    with * res show ?thesis by (auto simp: tbx_parse1_def)
  qed
qed

lemma tbx_parse1_slice:
  assumes "tbx_parse1 svl conf len (init_state ln stack rep ws) = (0, st)"
  shows "\<exists>b e. intv_ss st = Some b \<and> intv_se st = Some e \<and> b \<le> e \<and> e \<le> len"
proof -
  have "\<exists>st2. slice_ok len st2 \<and> finish conf st2 = (0, st)"
  proof (rule tbx_parse1_upt_inv [where P = "slice_ok len" and Q = "slice_ok len", OF _ _ _ _ _ assms])
    show "slice_ok len (init_state ln stack rep ws)" by (simp add: slice_ok_def init_state_def)
    show "field_b (init_state ln stack rep ws) = 0" by (simp add: init_state_def)
  next
    fix i and st0 st' :: parse_state
    assume a: "slice_ok len st0" "field_b st0 \<le> i" "i \<le> len"
      "handle_field svl conf i st0 = Continue st'"
    have "intv_ss st' = (if field_id st0 = sc conf then Some (field_b st0) else intv_ss st0)"
      "intv_se st' = (if field_id st0 = sc conf then Some i else intv_se st0)"
      using handle_field_slice [of svl conf i st0] a(4) by simp_all
    then show "slice_ok len (st'\<lparr>field_b := i + 1, field_id := field_id st' + 1\<rparr>)"
      using a(1-3) by (simp add: slice_ok_def)
  next
    fix i and st0 st' :: parse_state
    assume a: "slice_ok len st0" "field_b st0 \<le> i" "i \<le> len"
      "handle_field svl conf i st0 = Break st'"
    have "intv_ss st' = (if field_id st0 = sc conf then Some (field_b st0) else intv_ss st0)"
      "intv_se st' = (if field_id st0 = sc conf then Some i else intv_se st0)"
      using handle_field_slice [of svl conf i st0] a(4) by simp_all
    then show "slice_ok len st'"
      using a(1-3) by (simp add: slice_ok_def)
  qed simp
  then obtain st2 where st2: "slice_ok len st2" "finish conf st2 = (0, st)" by blast
  have "intv_ss st = intv_ss st2" "intv_se st = intv_se st2"
    using finish_state [OF st2(2)] by (simp_all add: vcf_end_frame)
  moreover have "intv_ss st \<noteq> None" "intv_se st \<noteq> None"
    using finish_success [OF st2(2)] by simp_all
  ultimately show ?thesis using st2(1) by (auto simp: slice_ok_def split: option.splits)
qed

text \<open>A line with fewer fields than the sequence column asks for is refused.\<close>

lemma parse_line_no_name:
  assumes plain: "\<forall>f \<in> set fs. plain_field f" "fs \<noteq> []"
    and sc: "sc conf < 1 \<or> int (length fs) < sc conf"
  shows "fst (parse_line svl conf stack rep ws (tsv fs)) = - 1"
proof (rule ccontr)
  assume "fst (parse_line svl conf stack rep ws (tsv fs)) \<noteq> - 1"
  then have ok: "fst (parse_line svl conf stack rep ws (tsv fs)) = 0"
    using tbx_parse1_result [of svl conf "length (tsv fs)" "init_state (kstring (tsv fs)) stack rep ws"]
    by (simp add: parse_line_def)
  have "\<exists>st. intv_ss st = None \<and> finish conf st = (0, snd (parse_line svl conf stack rep ws (tsv fs)))"
  proof (rule parse_line_rule [where P = "\<lambda>k st. intv_ss st = None" and Q = "\<lambda>st. intv_ss st = None",
        OF plain _ _ _ _ ok])
    show "intv_ss (init_state (kstring (tsv fs)) stack rep ws) = None" by (simp add: init_state_def)
  next
    fix k and st0 st' :: parse_state
    assume a: "intv_ss st0 = None" "k < length fs" "field_id st0 = 1 + int k"
      "handle_field svl conf (field_b st0 + length (fs ! k)) st0 = Continue st'"
    have "field_id st0 \<noteq> sc conf" using a(2,3) sc by auto
    then have "intv_ss st' = None"
      using handle_field_slice(1) [of svl conf "field_b st0 + length (fs ! k)" st0] a(1,4) by simp
    then show "intv_ss (st'\<lparr>field_b := field_b st0 + length (fs ! k) + 1,
        field_id := field_id st' + 1\<rparr>) = None" by simp
  next
    fix k and st0 st' :: parse_state
    assume a: "intv_ss st0 = None" "k < length fs" "field_id st0 = 1 + int k"
      "handle_field svl conf (field_b st0 + length (fs ! k)) st0 = Break st'"
    have "field_id st0 \<noteq> sc conf" using a(2,3) sc by auto
    then show "intv_ss st' = None"
      using handle_field_slice(1) [of svl conf "field_b st0 + length (fs ! k)" st0] a(1,4) by simp
  qed simp
  then obtain st2 where st2: "intv_ss st2 = None"
    "finish conf st2 = (0, snd (parse_line svl conf stack rep ws (tsv fs)))" by blast
  have "intv_ss (snd (parse_line svl conf stack rep ws (tsv fs))) = intv_ss st2"
    using finish_state [OF st2(2)] by (simp add: vcf_end_frame)
  then show False using finish_success [OF st2(2)] st2(1) by simp
qed

text \<open>
  So is a line where \<^verbatim>\<open>strtoll\<close> converts nothing at the start of the begin column, or that
  has no begin column, for every preset but GAF.
\<close>

lemma parse_line_no_begin:
  assumes plain: "\<forall>f \<in> set fs. plain_field f" "fs \<noteq> []"
    and gaf: "preset_tag conf \<noteq> TBX_GAF"
    and bc: "bc conf < 1 \<or> int (length fs) < bc conf \<or> bc conf = sc conf
       \<or> snd (strtoll 0 (join_with TAB (drop (nat (bc conf) - 1) fs) @ [NUL])) = 0"
  shows "fst (parse_line svl conf stack rep ws (tsv fs)) = - 1"
proof (rule ccontr)
  assume "fst (parse_line svl conf stack rep ws (tsv fs)) \<noteq> - 1"
  then have ok: "fst (parse_line svl conf stack rep ws (tsv fs)) = 0"
    using tbx_parse1_result [of svl conf "length (tsv fs)" "init_state (kstring (tsv fs)) stack rep ws"]
    by (simp add: parse_line_def)
  have "\<exists>st. intv_beg st = - 1 \<and> finish conf st = (0, snd (parse_line svl conf stack rep ws (tsv fs)))"
  proof (rule parse_line_rule [where P = "\<lambda>k st. intv_beg st = - 1" and Q = "\<lambda>st. intv_beg st = - 1",
        OF plain _ _ _ _ ok])
    show "intv_beg (init_state (kstring (tsv fs)) stack rep ws) = - 1" by (simp add: init_state_def)
  next
    fix k and st0 st' :: parse_state
    assume a: "intv_beg st0 = - 1" "k < length fs" "field_id st0 = 1 + int k"
      "drop (field_b st0) (line st0) = join_with TAB (drop k fs) @ [NUL]"
      "handle_field svl conf (field_b st0 + length (fs ! k)) st0 = Continue st'"
    have "field_id st0 \<noteq> bc conf \<or> field_id st0 = sc conf"
    proof (rule ccontr)
      assume "\<not> (field_id st0 \<noteq> bc conf \<or> field_id st0 = sc conf)"
      then have b: "field_id st0 = bc conf" "field_id st0 \<noteq> sc conf" by simp_all
      have k: "nat (bc conf) - 1 = k" using b(1) a(3) by simp
      have "begin_column conf st0 = Continue st'"
        using handle_field_begin [OF b gaf] a(5) by simp
      from begin_column_converts [OF this]
      have "snd (strtoll 0 (join_with TAB (drop k fs) @ [NUL])) \<noteq> 0" by (simp add: a(4))
      then have "snd (strtoll 0 (join_with TAB (drop (nat (bc conf) - 1) fs) @ [NUL])) \<noteq> 0"
        unfolding k .
      then show False using bc b a(2,3) by auto
    qed
    then have "intv_beg st' = - 1"
      using handle_field_beg_frame [of st0 conf svl "field_b st0 + length (fs ! k)"] a(1,5) by simp
    then show "intv_beg (st'\<lparr>field_b := field_b st0 + length (fs ! k) + 1,
        field_id := field_id st' + 1\<rparr>) = - 1" by simp
  next
    fix k and st0 st' :: parse_state
    assume a: "intv_beg st0 = - 1" "k < length fs" "field_id st0 = 1 + int k"
      "drop (field_b st0) (line st0) = join_with TAB (drop k fs) @ [NUL]"
      "handle_field svl conf (field_b st0 + length (fs ! k)) st0 = Break st'"
    have "field_id st0 \<noteq> bc conf \<or> field_id st0 = sc conf"
    proof (rule ccontr)
      assume "\<not> (field_id st0 \<noteq> bc conf \<or> field_id st0 = sc conf)"
      then have b: "field_id st0 = bc conf" "field_id st0 \<noteq> sc conf" by simp_all
      have "begin_column conf st0 = Break st'"
        using handle_field_begin [OF b gaf] a(5) by simp
      then show False by (auto simp: begin_column_def Let_def split: if_splits)
    qed
    then show "intv_beg st' = - 1"
      using handle_field_beg_frame [of st0 conf svl "field_b st0 + length (fs ! k)"] a(1,5) by simp
  qed simp
  then obtain st2 where st2: "intv_beg st2 = - 1"
    "finish conf st2 = (0, snd (parse_line svl conf stack rep ws (tsv fs)))" by blast
  have "intv_beg (snd (parse_line svl conf stack rep ws (tsv fs))) = intv_beg st2"
    using finish_state [OF st2(2)] by (simp add: vcf_end_frame)
  then show False using finish_success [OF st2(2)] st2(1) by simp
qed

text \<open>A line with no field at the begin column is refused, whatever the preset.\<close>

lemma parse_line_no_begin_field:
  assumes plain: "\<forall>f \<in> set fs. plain_field f" "fs \<noteq> []"
    and bc: "bc conf < 1 \<or> int (length fs) < bc conf \<or> bc conf = sc conf"
  shows "fst (parse_line svl conf stack rep ws (tsv fs)) = - 1"
proof (rule ccontr)
  assume "fst (parse_line svl conf stack rep ws (tsv fs)) \<noteq> - 1"
  then have ok: "fst (parse_line svl conf stack rep ws (tsv fs)) = 0"
    using tbx_parse1_result [of svl conf "length (tsv fs)" "init_state (kstring (tsv fs)) stack rep ws"]
    by (simp add: parse_line_def)
  have "\<exists>st. intv_beg st = - 1 \<and> finish conf st = (0, snd (parse_line svl conf stack rep ws (tsv fs)))"
  proof (rule parse_line_rule [where P = "\<lambda>k st. intv_beg st = - 1" and Q = "\<lambda>st. intv_beg st = - 1",
        OF plain _ _ _ _ ok])
    show "intv_beg (init_state (kstring (tsv fs)) stack rep ws) = - 1" by (simp add: init_state_def)
  next
    fix k and st0 st' :: parse_state
    assume a: "intv_beg st0 = - 1" "k < length fs" "field_id st0 = 1 + int k"
      "handle_field svl conf (field_b st0 + length (fs ! k)) st0 = Continue st'"
    have "field_id st0 \<noteq> bc conf \<or> field_id st0 = sc conf" using a(2,3) bc by auto
    then have "intv_beg st' = - 1"
      using handle_field_beg_frame [of st0 conf svl "field_b st0 + length (fs ! k)"] a(1,4) by simp
    then show "intv_beg (st'\<lparr>field_b := field_b st0 + length (fs ! k) + 1,
        field_id := field_id st' + 1\<rparr>) = - 1" by simp
  next
    fix k and st0 st' :: parse_state
    assume a: "intv_beg st0 = - 1" "k < length fs" "field_id st0 = 1 + int k"
      "handle_field svl conf (field_b st0 + length (fs ! k)) st0 = Break st'"
    have "field_id st0 \<noteq> bc conf \<or> field_id st0 = sc conf" using a(2,3) bc by auto
    then show "intv_beg st' = - 1"
      using handle_field_beg_frame [of st0 conf svl "field_b st0 + length (fs ! k)"] a(1,4) by simp
  qed simp
  then obtain st2 where st2: "intv_beg st2 = - 1"
    "finish conf st2 = (0, snd (parse_line svl conf stack rep ws (tsv fs)))" by blast
  have "intv_beg (snd (parse_line svl conf stack rep ws (tsv fs))) = intv_beg st2"
    using finish_state [OF st2(2)] by (simp add: vcf_end_frame)
  then show False using finish_success [OF st2(2)] st2(1) by simp
qed


subsection \<open>The node ids of a GAF path\<close>

lemma digit_val_NUL: "digit_val NUL = None"
  by (simp add: digit_val_def NUL_def)

lemma digit_val_TAB: "digit_val TAB = None"
  by (simp add: digit_val_def TAB_def)

lemma digit_val_not_space: "digit_val a \<noteq> None \<Longrightarrow> \<not> isspace a"
  by (auto simp: digit_val_def isspace_def Let_def split: if_splits)

lemma digit_val_not_sign: "digit_val a \<noteq> None \<Longrightarrow> a \<noteq> CHR ''-'' \<and> a \<noteq> CHR ''+''"
  by (auto simp: digit_val_def Let_def split: if_splits)

lemma digit_val_x: "digit_val c = None \<Longrightarrow> c \<noteq> CHR ''x'' \<and> c \<noteq> CHR ''X'' \<and> c \<noteq> CHR ''0''"
  by (auto simp: digit_val_def Let_def split: if_splits)

lemma digits_stop:
  "digit_val c = None \<Longrightarrow> digit_val c' = None
   \<Longrightarrow> digits b (d @ c # rest) acc = digits b (d @ c' # rest') acc"
  by (induction d arbitrary: acc) (simp_all split: option.splits)

lemma strtoll_literal:
  assumes "d \<noteq> []" "list_all (\<lambda>c. digit_val c \<noteq> None) d" "digit_val c = None"
  shows "strtoll 0 (d @ c # rest) = strtoll 0 (d @ [NUL])"
proof -
  obtain a d' where d: "d = a # d'" using assms(1) by (cases d) auto
  have a: "\<not> isspace a" "a \<noteq> CHR ''-''" "a \<noteq> CHR ''+''"
    using assms(2) digit_val_not_space [of a] digit_val_not_sign [of a] by (simp_all add: d)
  note cx = digit_val_x [OF assms(3)] digit_val_x [OF digit_val_NUL]
  show ?thesis
  proof (cases d')
    case Nil
    have "digits b (x # c # rest) 0 = digits b [x, NUL] 0" for b x
      using digits_stop [of c NUL b "[x]" rest 0 "[]"] assms(3) digit_val_NUL by simp
    then show ?thesis
      using a cx by (simp add: strtoll_def d Nil hex_prefix_def Let_def del: digits.simps)
  next
    case (Cons a2 d2)
    have 1: "digits b (d2 @ c # rest) 0 = digits b (d2 @ [NUL]) 0" for b
      using digits_stop [of c NUL b d2 rest 0 "[]"] assms(3) digit_val_NUL by simp
    have 2: "digits b (x # y # d2 @ c # rest) 0 = digits b (x # y # d2 @ [NUL]) 0" for b x y
      using digits_stop [of c NUL b "x # y # d2" rest 0 "[]"] assms(3) digit_val_NUL by simp
    show ?thesis
      using a by (simp add: strtoll_def d Cons hex_prefix_def Let_def 1 2 del: digits.simps)
  qed
qed

lemma strtoll_literal_nonneg:
  assumes "c_literal d"
  shows "0 \<le> fst (strtoll 0 (d @ [NUL]))"
proof -
  obtain a d' where d: "d = a # d'" using assms by (cases d) (auto simp: c_literal_def)
  have a: "\<not> isspace a" "a \<noteq> CHR ''-''" "a \<noteq> CHR ''+''"
    using assms digit_val_not_space [of a] digit_val_not_sign [of a] by (simp_all add: d c_literal_def)
  have "0 \<le> fst (digits b s 0)" for b s by (simp add: digits_nonneg)
  then have "0 \<le> saturate False (fst (digits b s 0))" for b s
    by (simp add: saturate_def)
  then show ?thesis
    using a by (simp add: strtoll_def d Let_def del: digits.simps)
qed

lemma gaf_path_Cons: "gaf_path ((c, d) # steps) = c # d @ gaf_path steps"
  by (simp add: gaf_path_def)

lemma gaf_loop_steps:
  assumes "list_all gaf_step steps" "c_literal d" "digit_val c = None"
    and "drop s ln = d @ gaf_path steps @ c # rest"
    and "i = s + length d + length (gaf_path steps)"
  shows "gaf_loop ln i s (lo, hi)
       = foldl range_add (lo, hi) (fst (strtoll 0 (d @ [NUL])) # node_ids 0 steps)"
  using assms
proof (induction steps arbitrary: s d lo hi i)
  case Nil
  have lit: "d \<noteq> []" "list_all (\<lambda>c. digit_val c \<noteq> None) d" "snd (strtoll 0 (d @ [NUL])) = length d"
    using Nil.prems(2) by (simp_all add: c_literal_def)
  have r: "strtoll 0 (drop s ln) = strtoll 0 (d @ [NUL])"
    using strtoll_literal [OF lit(1,2) Nil.prems(3)] Nil.prems(4) by (simp add: gaf_path_def)
  have si: "s < i" using Nil.prems(5) lit(1) by simp
  have "gaf_loop ln i s (lo, hi)
      = gaf_loop ln i (s + length d + 1) (range_add (lo, hi) (fst (strtoll 0 (d @ [NUL]))))"
    using si by (subst gaf_loop.simps) (simp add: r lit(3) Let_def)
  also have "\<dots> = range_add (lo, hi) (fst (strtoll 0 (d @ [NUL])))"
    using Nil.prems(5)
    by (cases "range_add (lo, hi) (fst (strtoll 0 (d @ [NUL])))")
      (simp add: gaf_loop.simps gaf_path_def)
  finally show ?case by (simp add: node_ids_def)
next
  case (Cons step steps)
  obtain c2 d2 where step: "step = (c2, d2)" by (cases step)
  have st2: "digit_val c2 = None" "c_literal d2" "list_all gaf_step steps"
    using Cons.prems(1) by (auto simp: step gaf_step_def digit_val_def)
  have lit: "d \<noteq> []" "list_all (\<lambda>c. digit_val c \<noteq> None) d" "snd (strtoll 0 (d @ [NUL])) = length d"
    using Cons.prems(2) by (simp_all add: c_literal_def)
  have dr: "drop s ln = d @ c2 # (d2 @ gaf_path steps @ c # rest)"
    using Cons.prems(4) by (simp add: step gaf_path_Cons)
  have r: "strtoll 0 (drop s ln) = strtoll 0 (d @ [NUL])"
    using strtoll_literal [OF lit(1,2) st2(1)] dr by simp
  have si: "s < i" using Cons.prems(5) lit(1) by simp
  have dr2: "drop (s + length d + 1) ln = d2 @ gaf_path steps @ c # rest"
  proof -
    have "drop (s + length d + 1) ln = drop (length d + 1) (drop s ln)"
      by (simp add: add.commute)
    then show ?thesis by (simp add: dr)
  qed
  have i2: "i = (s + length d + 1) + length d2 + length (gaf_path steps)"
    using Cons.prems(5) by (simp add: step gaf_path_Cons)
  obtain lo2 hi2 where ra: "range_add (lo, hi) (fst (strtoll 0 (d @ [NUL]))) = (lo2, hi2)"
    by (cases "range_add (lo, hi) (fst (strtoll 0 (d @ [NUL])))")
  have "gaf_loop ln i s (lo, hi) = gaf_loop ln i (s + length d + 1) (lo2, hi2)"
    using si ra by (subst gaf_loop.simps) (simp add: r lit(3) Let_def)
  also have "\<dots> = foldl range_add (lo2, hi2) (fst (strtoll 0 (d2 @ [NUL])) # node_ids 0 steps)"
    by (rule Cons.IH [OF st2(3) st2(2) Cons.prems(3) dr2 i2])
  finally show ?case
    using ra by (simp add: node_ids_def step)
qed

lemma foldl_range_add:
  "0 \<le> lo \<Longrightarrow> \<forall>v \<in> set vs. 0 \<le> v
   \<Longrightarrow> foldl range_add (lo, hi) vs = (fold min vs lo, fold max vs hi)"
proof (induction vs arbitrary: lo hi)
  case Nil
  then show ?case by simp
next
  case (Cons v vs)
  have "foldl range_add (min v lo, max v hi) vs = (fold min vs (min v lo), fold max vs (max v hi))"
    using Cons.prems by (intro Cons.IH) simp_all
  moreover have "range_add (lo, hi) v = (min v lo, max v hi)"
    using Cons.prems by (auto simp: min_def max_def)
  ultimately show ?case by simp
qed

lemma foldl_range_add_unset:
  assumes "vs \<noteq> []" "\<forall>v \<in> set vs. 0 \<le> v"
  shows "foldl range_add (- 1, - 1) vs = (Min (set vs), Max (set vs))"
proof -
  obtain v vs' where vs: "vs = v # vs'" using assms(1) by (cases vs) auto
  have "foldl range_add (- 1, - 1) vs = foldl range_add (v, v) vs'" by (simp add: vs)
  also have "\<dots> = (fold min vs' v, fold max vs' v)"
    using assms(2) by (intro foldl_range_add) (simp_all add: vs)
  also have "\<dots> = (Min (set vs), Max (set vs))"
    by (simp only: vs Min.set_eq_fold Max.set_eq_fold)
  finally show ?thesis .
qed

lemma node_ids_nonneg: "list_all gaf_step steps \<Longrightarrow> \<forall>v \<in> set (node_ids 0 steps). 0 \<le> v"
  by (auto simp: node_ids_def list_all_iff gaf_step_def strtoll_literal_nonneg)

text \<open>The begin column of a GAF line whose field is a path.\<close>

lemma gaf_column_path:
  assumes "list_all gaf_step steps" "steps \<noteq> []" "digit_val c = None"
    and "drop (field_b st) (line st) = gaf_path steps @ c # rest"
    and "intv_beg st = - 1" "intv_end st = - 1"
  shows "intv_beg (gaf_column (field_b st + length (gaf_path steps)) st) = Min (set (node_ids 0 steps))"
    and "intv_end (gaf_column (field_b st + length (gaf_path steps)) st) = Max (set (node_ids 0 steps))"
proof -
  obtain c1 d1 steps' where steps: "steps = (c1, d1) # steps'"
    using assms(2) by (cases steps) auto
  have s1: "c_literal d1" "list_all gaf_step steps'"
    using assms(1) by (simp_all add: steps gaf_step_def)
  have dr: "drop (field_b st + 1) (line st) = d1 @ gaf_path steps' @ c # rest"
  proof -
    have "drop (field_b st + 1) (line st) = drop 1 (drop (field_b st) (line st))"
      by (simp add: add.commute)
    then show ?thesis by (simp add: assms(4) steps gaf_path_Cons)
  qed
  have i: "field_b st + length (gaf_path steps)
      = (field_b st + 1) + length d1 + length (gaf_path steps')"
    by (simp add: steps gaf_path_Cons)
  have "gaf_loop (line st) (field_b st + length (gaf_path steps)) (field_b st + 1) (- 1, - 1)
      = foldl range_add (- 1, - 1) (fst (strtoll 0 (d1 @ [NUL])) # node_ids 0 steps')"
    by (rule gaf_loop_steps [OF s1(2) s1(1) assms(3) dr i])
  also have "fst (strtoll 0 (d1 @ [NUL])) # node_ids 0 steps' = node_ids 0 steps"
    by (simp add: steps node_ids_def)
  also have "foldl range_add (- 1, - 1) (node_ids 0 steps)
      = (Min (set (node_ids 0 steps)), Max (set (node_ids 0 steps)))"
    using node_ids_nonneg [OF assms(1)] assms(2)
    by (intro foldl_range_add_unset) (simp_all add: node_ids_def)
  finally have "gaf_loop (line st) (field_b st + length (gaf_path steps)) (field_b st + 1)
      (intv_beg st, intv_end st) = (Min (set (node_ids 0 steps)), Max (set (node_ids 0 steps)))"
    by (simp add: assms(5,6))
  then show "intv_beg (gaf_column (field_b st + length (gaf_path steps)) st) = Min (set (node_ids 0 steps))"
    and "intv_end (gaf_column (field_b st + length (gaf_path steps)) st) = Max (set (node_ids 0 steps))"
    by (simp_all add: gaf_column_def Let_def)
qed

lemma strtoll_base10:
  assumes "c_literal d" "hd d \<noteq> CHR ''0''"
  shows "strtoll 0 (d @ [NUL]) = strtoll 10 (d @ [NUL])"
proof -
  obtain a d' where d: "d = a # d'" using assms(1) by (cases d) (auto simp: c_literal_def)
  have a: "\<not> isspace a" "a \<noteq> CHR ''-''" "a \<noteq> CHR ''+''" "a \<noteq> CHR ''0''"
    using assms digit_val_not_space [of a] digit_val_not_sign [of a] by (simp_all add: d c_literal_def)
  show ?thesis
    using a by (simp add: strtoll_def d hex_prefix_def Let_def del: digits.simps split: list.splits)
qed

lemma node_ids_base10:
  "list_all gaf_step steps \<Longrightarrow> list_all (\<lambda>(c, d). hd d \<noteq> CHR ''0'') steps
   \<Longrightarrow> node_ids 0 steps = node_ids 10 steps"
  by (induction steps) (auto simp: node_ids_def gaf_step_def strtoll_base10)


subsection \<open>A loop over the fields that runs to the end\<close>

lemma fields_loop_total:
  assumes plain: "\<forall>f \<in> set fs. plain_field f"
    and init: "P k st" "k \<le> length fs" "field_id st = 1 + int k"
      "k < length fs \<longrightarrow> drop (field_b st) (line st) = join_with TAB (drop k fs) @ [NUL]"
    and cont: "\<And>k st. P k st \<Longrightarrow> k < length fs \<Longrightarrow> field_id st = 1 + int k
        \<Longrightarrow> drop (field_b st) (line st) = join_with TAB (drop k fs) @ [NUL]
        \<Longrightarrow> \<exists>st'. handle_field svl conf (field_b st + length (fs ! k)) st = Continue st'
              \<and> P (Suc k) (st'\<lparr>field_b := field_b st + length (fs ! k) + 1,
                                field_id := field_id st' + 1\<rparr>)"
  shows "\<exists>st'. fields_loop svl conf (drop k fs) st = Continue st' \<and> P (length fs) st'"
  using init
proof (induction "length fs - k" arbitrary: k st)
  case 0
  then have "drop k fs = []" "k = length fs" by simp_all
  then show ?case using "0.prems"(1) by simp
next
  case (Suc d)
  then have k: "k < length fs" by simp
  then have dk: "drop k fs = fs ! k # drop (Suc k) fs" by (simp add: Cons_nth_drop_Suc)
  have dr: "drop (field_b st) (line st) = join_with TAB (drop k fs) @ [NUL]"
    using Suc.prems(4) k by simp
  have d: "d = length fs - Suc k" using Suc.hyps(2) by simp
  let ?i = "field_b st + length (fs ! k)"
  obtain st' where st': "handle_field svl conf ?i st = Continue st'"
    "P (Suc k) (st'\<lparr>field_b := ?i + 1, field_id := field_id st' + 1\<rparr>)"
    using cont [OF Suc.prems(1) k Suc.prems(3) dr] by auto
  let ?st2 = "st'\<lparr>field_b := ?i + 1, field_id := field_id st' + 1\<rparr>"
  have ln: "line st' = line st" and fid: "field_id st' = field_id st"
    using handle_field_line [of svl conf ?i st] handle_field_frame(2) [of svl conf ?i st] st'(1)
    by simp_all
  have id2: "field_id ?st2 = 1 + int (Suc k)"
    using Suc.prems(3) by (simp add: fid)
  have dr2: "Suc k < length fs \<longrightarrow>
      drop (field_b ?st2) (line ?st2) = join_with TAB (drop (Suc k) fs) @ [NUL]"
  proof
    assume "Suc k < length fs"
    then have ne: "drop (Suc k) fs \<noteq> []" by simp
    have "drop (?i + 1) (line st) = drop (length (fs ! k) + 1) (drop (field_b st) (line st))"
      by (simp add: add.commute)
    also have "\<dots> = join_with TAB (drop (Suc k) fs) @ [NUL]"
      using ne by (simp add: dr dk join_with_Cons)
    finally show "drop (field_b ?st2) (line ?st2) = join_with TAB (drop (Suc k) fs) @ [NUL]"
      by (simp add: ln)
  qed
  have "\<exists>st3. fields_loop svl conf (drop (Suc k) fs) ?st2 = Continue st3 \<and> P (length fs) st3"
    using k by (intro Suc.hyps(1) [OF d st'(2) _ id2 dr2]) simp
  then show ?case using st'(1) by (simp add: dk)
qed

lemma parse_line_total:
  assumes plain: "\<forall>f \<in> set fs. plain_field f" "fs \<noteq> []"
    and init: "P 0 (init_state (kstring (tsv fs)) stack rep ws)"
    and cont: "\<And>k st. P k st \<Longrightarrow> k < length fs \<Longrightarrow> field_id st = 1 + int k
        \<Longrightarrow> drop (field_b st) (line st) = join_with TAB (drop k fs) @ [NUL]
        \<Longrightarrow> \<exists>st'. handle_field svl conf (field_b st + length (fs ! k)) st = Continue st'
              \<and> P (Suc k) (st'\<lparr>field_b := field_b st + length (fs ! k) + 1,
                                field_id := field_id st' + 1\<rparr>)"
  shows "\<exists>st. P (length fs) st \<and> parse_line svl conf stack rep ws (tsv fs) = finish conf st"
proof -
  define st0 where "st0 = init_state (kstring (tsv fs)) stack rep ws"
  have "\<exists>st'. fields_loop svl conf (drop 0 fs) st0 = Continue st' \<and> P (length fs) st'"
  proof (rule fields_loop_total [where P = P, OF plain(1)])
    show "P 0 st0" using init by (simp add: st0_def)
    show "field_id st0 = 1 + int 0" by (simp add: st0_def init_state_def)
    show "0 < length fs \<longrightarrow> drop (field_b st0) (line st0) = join_with TAB (drop 0 fs) @ [NUL]"
      by (simp add: st0_def init_state_def kstring_def tsv_def)
  qed (use cont in auto)
  then obtain st' where st': "fields_loop svl conf fs st0 = Continue st'" "P (length fs) st'"
    by auto
  have "parse_line svl conf stack rep ws (tsv fs) = finish conf st'"
    using parse_line_fields [OF plain, of svl conf stack rep ws] st'(1) by (simp add: st0_def)
  with st'(2) show ?thesis by blast
qed

text \<open>The columns of a GAF line.\<close>

lemma handle_field_gaf:
  "preset_tag conf = TBX_GAF \<Longrightarrow> handle_field svl conf i st =
     Continue (if field_id st = sc conf then st\<lparr>intv_ss := Some (field_b st), intv_se := Some i\<rparr>
               else if field_id st = bc conf then gaf_column i st else st)"
  by (simp add: handle_field_def TBX_GAF_def TBX_GENERIC_def TBX_SAM_def TBX_VCF_def)

lemma join_with_field:
  "fs \<noteq> [] \<Longrightarrow> \<exists>c rest. join_with TAB fs @ [NUL] = hd fs @ c # rest \<and> (c = TAB \<or> c = NUL)"
  by (cases fs) (auto simp: join_with_Cons)

lemma parse_line_gaf:
  assumes tag: "preset_tag conf = TBX_GAF"
    and plain: "\<forall>f \<in> set fs. plain_field f"
    and cols: "1 \<le> bc conf" "bc conf \<le> int (length fs)" "sc conf \<noteq> bc conf"
    and path: "fs ! (nat (bc conf) - 1) = gaf_path steps" "steps \<noteq> []" "list_all gaf_step steps"
  shows "intv_beg (snd (parse_line svl conf stack rep ws (tsv fs))) = Min (set (node_ids 0 steps))"
    and "intv_end (snd (parse_line svl conf stack rep ws (tsv fs))) = Max (set (node_ids 0 steps))"
    and "1 \<le> sc conf \<and> sc conf \<le> int (length fs)
         \<Longrightarrow> fst (parse_line svl conf stack rep ws (tsv fs)) = 0"
proof -
  define lo where "lo = Min (set (node_ids 0 steps))"
  define hi where "hi = Max (set (node_ids 0 steps))"
  define P where "P = (\<lambda>k (st :: parse_state).
      (int k < bc conf \<longrightarrow> intv_beg st = - 1 \<and> intv_end st = - 1)
    \<and> (bc conf \<le> int k \<longrightarrow> intv_beg st = lo \<and> intv_end st = hi)
    \<and> (1 \<le> sc conf \<and> sc conf \<le> int k \<longrightarrow> intv_ss st \<noteq> None \<and> intv_se st \<noteq> None))"
  have ne: "fs \<noteq> []" using cols by auto
  have "\<exists>st. P (length fs) st \<and> parse_line svl conf stack rep ws (tsv fs) = finish conf st"
  proof (rule parse_line_total [where P = P, OF plain ne])
    show "P 0 (init_state (kstring (tsv fs)) stack rep ws)"
      using cols by (simp add: P_def init_state_def)
  next
    fix k and st :: parse_state
    assume a: "P k st" "k < length fs" "field_id st = 1 + int k"
      "drop (field_b st) (line st) = join_with TAB (drop k fs) @ [NUL]"
    let ?i = "field_b st + length (fs ! k)"
    let ?st' = "if field_id st = sc conf then st\<lparr>intv_ss := Some (field_b st), intv_se := Some ?i\<rparr>
               else if field_id st = bc conf then gaf_column ?i st else st"
    have h: "handle_field svl conf ?i st = Continue ?st'" by (rule handle_field_gaf [OF tag])
    have "P (Suc k) (?st'\<lparr>field_b := ?i + 1, field_id := field_id ?st' + 1\<rparr>)"
    proof (cases "field_id st = sc conf")
      case True
      then show ?thesis using a(1,3) cols(3) by (auto simp: P_def)
    next
      case nsc: False
      show ?thesis
      proof (cases "field_id st = bc conf")
        case False
        then show ?thesis using a(1,3) nsc by (auto simp: P_def)
      next
        case True
        then have k: "nat (bc conf) - 1 = k" using a(3) by simp
        have f: "fs ! k = gaf_path steps" using path(1) by (simp only: k)
        have "drop k fs \<noteq> []" using a(2) by simp
        from join_with_field [OF this] obtain c rest where
          c: "join_with TAB (drop k fs) @ [NUL] = hd (drop k fs) @ c # rest" "c = TAB \<or> c = NUL"
          by blast
        have hd: "hd (drop k fs) = fs ! k" using a(2) by (simp add: hd_drop_conv_nth)
        have dr: "drop (field_b st) (line st) = gaf_path steps @ c # rest"
          using a(4) c(1) by (simp add: hd f)
        have dc: "digit_val c = None" using c(2) digit_val_TAB digit_val_NUL by auto
        have unset: "intv_beg st = - 1" "intv_end st = - 1"
          using a(1,3) True by (simp_all add: P_def)
        have "intv_beg (gaf_column ?i st) = lo" "intv_end (gaf_column ?i st) = hi"
          using gaf_column_path [OF path(3,2) dc dr unset] by (simp_all add: f lo_def hi_def)
        moreover have "intv_ss (gaf_column ?i st) = intv_ss st" "intv_se (gaf_column ?i st) = intv_se st"
          by (simp_all add: gaf_column_frame)
        ultimately show ?thesis using a(1,3) nsc True by (auto simp: P_def)
      qed
    qed
    with h show "\<exists>st'. handle_field svl conf ?i st = Continue st'
        \<and> P (Suc k) (st'\<lparr>field_b := ?i + 1, field_id := field_id st' + 1\<rparr>)"
      by blast
  qed
  then obtain st where st: "P (length fs) st"
    "parse_line svl conf stack rep ws (tsv fs) = finish conf st" by blast
  have ntag: "preset_tag conf \<noteq> TBX_VCF" using tag by (simp add: TBX_GAF_def TBX_VCF_def)
  have fin: "snd (finish conf st) = st" using ntag by (simp add: finish_def Let_def)
  have be: "intv_beg st = lo" "intv_end st = hi" using st(1) cols by (simp_all add: P_def)
  show "intv_beg (snd (parse_line svl conf stack rep ws (tsv fs))) = Min (set (node_ids 0 steps))"
    and "intv_end (snd (parse_line svl conf stack rep ws (tsv fs))) = Max (set (node_ids 0 steps))"
    using be by (simp_all add: st(2) fin lo_def hi_def)
  have pos: "0 \<le> lo" "0 \<le> hi"
  proof -
    have fin: "finite (set (node_ids 0 steps))" "set (node_ids 0 steps) \<noteq> {}"
      using path(2) by (simp_all add: node_ids_def)
    have "lo \<in> set (node_ids 0 steps)" "hi \<in> set (node_ids 0 steps)"
      unfolding lo_def hi_def using fin by (simp_all add: Min_in Max_in)
    then show "0 \<le> lo" "0 \<le> hi" using node_ids_nonneg [OF path(3)] by auto
  qed
  show "fst (parse_line svl conf stack rep ws (tsv fs)) = 0"
    if "1 \<le> sc conf \<and> sc conf \<le> int (length fs)"
    using that st(1) be pos ntag by (simp add: st(2) finish_def Let_def P_def)
qed


section \<open>C4: the number of levels\<close>

lemma wrap64_small: "0 \<le> x \<Longrightarrow> x \<le> 2 ^ 62 \<Longrightarrow> wrap64 x = x"
  by (simp add: wrap64_def)

lemma pow2_le_62: "e \<le> 62 \<Longrightarrow> (2::int) ^ e \<le> 2 ^ 62"
  by (rule power_increasing) simp_all

lemma maxpos_exact:
  assumes "0 \<le> ms + 3 * n" "ms + 3 * n \<le> 62"
  shows "hts_bin_maxpos ms n = 2 ^ nat (ms + 3 * n)"
proof -
  have "(2::int) ^ nat (ms + 3 * n) \<le> 2 ^ 62"
    using assms by (intro pow2_le_62) simp
  moreover have "(0::int) \<le> 2 ^ nat (ms + 3 * n)" by simp
  ultimately have "wrap64 (2 ^ nat (ms + 3 * n)) = 2 ^ nat (ms + 3 * n)"
    by (intro wrap64_small)
  then show ?thesis
    by (simp add: hts_bin_maxpos_def push_bit_eq_mult)
qed

lemma adjust_loop_least:
  assumes "n \<le> k" "0 \<le> ms" "ms < 2 ^ 31" "0 \<le> ms + 3 * n" "ms + 3 * k \<le> 62"
    and "L \<le> 2 ^ nat (ms + 3 * k)"
  shows "\<exists>r. adjust_loop L n (2 ^ nat (ms + 3 * n)) = Some r \<and> n \<le> r \<and> r \<le> k
           \<and> L \<le> 2 ^ nat (ms + 3 * r)
           \<and> (\<forall>m. n \<le> m \<and> m < r \<longrightarrow> 2 ^ nat (ms + 3 * m) < L)"
  using assms
proof (induction "nat (k - n)" arbitrary: n)
  case 0
  then have "n = k" by simp
  with 0 show ?case
    by (subst adjust_loop.simps) auto
next
  case (Suc d)
  show ?case
  proof (cases "L > 2 ^ nat (ms + 3 * n)")
    case False
    with Suc.prems show ?thesis
      by (subst adjust_loop.simps) auto
  next
    case True
    from Suc.hyps(2) have lt: "n < k" by simp
    have n32: "wrap32 (n + 1) = n + 1"
      using Suc.prems lt by (intro wrap32_id) simp_all
    have e: "nat (ms + 3 * (n + 1)) = nat (ms + 3 * n) + 3"
      using Suc.prems by simp
    have "(2::int) ^ nat (ms + 3 * (n + 1)) \<le> 2 ^ 62"
      using Suc.prems lt by (intro pow2_le_62) simp
    moreover have "(0::int) \<le> 2 ^ nat (ms + 3 * (n + 1))" by simp
    ultimately have "wrap64 (2 ^ nat (ms + 3 * (n + 1))) = 2 ^ nat (ms + 3 * (n + 1))"
      by (intro wrap64_small)
    moreover have "push_bit 3 (2 ^ nat (ms + 3 * n)) = (2::int) ^ nat (ms + 3 * (n + 1))"
      unfolding e by (simp add: push_bit_eq_mult power_add)
    ultimately have s64: "wrap64 (push_bit 3 (2 ^ nat (ms + 3 * n))) = 2 ^ nat (ms + 3 * (n + 1))"
      by simp
    have "\<exists>r. adjust_loop L (n + 1) (2 ^ nat (ms + 3 * (n + 1))) = Some r \<and> n + 1 \<le> r \<and> r \<le> k
           \<and> L \<le> 2 ^ nat (ms + 3 * r)
           \<and> (\<forall>m. n + 1 \<le> m \<and> m < r \<longrightarrow> 2 ^ nat (ms + 3 * m) < L)"
      using Suc.hyps(2) Suc.prems lt by (intro Suc.hyps(1)) simp_all
    then obtain r where r: "adjust_loop L (n + 1) (2 ^ nat (ms + 3 * (n + 1))) = Some r"
      "n + 1 \<le> r" "r \<le> k" "L \<le> 2 ^ nat (ms + 3 * r)"
      "\<forall>m. n + 1 \<le> m \<and> m < r \<longrightarrow> 2 ^ nat (ms + 3 * m) < L" by blast
    have "adjust_loop L n (2 ^ nat (ms + 3 * n)) = Some r"
      using True r(1) by (subst adjust_loop.simps) (simp add: n32 s64)
    moreover have "\<forall>m. n \<le> m \<and> m < r \<longrightarrow> 2 ^ nat (ms + 3 * m) < L"
    proof (intro allI impI)
      fix m assume m: "n \<le> m \<and> m < r"
      show "2 ^ nat (ms + 3 * m) < L"
      proof (cases "m = n")
        case True
        with \<open>L > 2 ^ nat (ms + 3 * n)\<close> show ?thesis by simp
      next
        case False
        with m r(5) show ?thesis by simp
      qed
    qed
    ultimately show ?thesis using r by auto
  qed
qed

text \<open>
  Below the overflow: when \<open>max_len + 256\<close> is at most the \<open>max_pos\<close> of some level count \<open>k \<ge> n_lvls\<close>
  that still fits 64 bits (\<open>min_shift + 3 * k \<le> 62\<close>), \<^verbatim>\<open>adjust_n_lvls\<close> returns, and returns
  the smallest \<open>n \<ge> n_lvls\<close> with \<open>max_pos(min_shift, n) \<ge> max_len + 256\<close>. This covers the
  call of \<^verbatim>\<open>tbx_index\<close> before the first record of a CSI build.
\<close>

lemma adjust_n_lvls_smallest:
  assumes "0 \<le> min_shift" "min_shift < 2 ^ 31" "0 \<le> min_shift + 3 * n_lvls"
    and "n_lvls \<le> k" "min_shift + 3 * k \<le> 62"
    and "- (2 ^ 63) \<le> max_len" "max_len + 256 \<le> 2 ^ nat (min_shift + 3 * k)"
  shows "\<exists>n. adjust_n_lvls min_shift n_lvls max_len = Some n \<and> n_lvls \<le> n
           \<and> max_len + 256 \<le> hts_bin_maxpos min_shift n
           \<and> (\<forall>m. n_lvls \<le> m \<and> m < n \<longrightarrow> hts_bin_maxpos min_shift m < max_len + 256)"
proof -
  have "(2::int) ^ nat (min_shift + 3 * k) \<le> 2 ^ 62"
    using assms by (intro pow2_le_62) simp
  with assms have w: "wrap64 (max_len + 256) = max_len + 256"
    by (intro wrap64_id) simp_all
  have s0: "hts_bin_maxpos min_shift n_lvls = 2 ^ nat (min_shift + 3 * n_lvls)"
    using assms by (intro maxpos_exact) simp_all
  from adjust_loop_least [of n_lvls k min_shift "max_len + 256"] assms
  obtain r where r: "adjust_loop (max_len + 256) n_lvls (2 ^ nat (min_shift + 3 * n_lvls)) = Some r"
    "n_lvls \<le> r" "r \<le> k" "max_len + 256 \<le> 2 ^ nat (min_shift + 3 * r)"
    "\<forall>m. n_lvls \<le> m \<and> m < r \<longrightarrow> 2 ^ nat (min_shift + 3 * m) < max_len + 256"
    by blast
  have mp: "hts_bin_maxpos min_shift m = 2 ^ nat (min_shift + 3 * m)" if "n_lvls \<le> m" "m \<le> r" for m
    using that assms r(3) by (intro maxpos_exact) simp_all
  have "adjust_n_lvls min_shift n_lvls max_len = Some r"
    by (simp add: adjust_n_lvls_def w s0 r(1))
  moreover have "max_len + 256 \<le> hts_bin_maxpos min_shift r"
    using r(2,4) by (simp add: mp)
  moreover have "\<forall>m. n_lvls \<le> m \<and> m < r \<longrightarrow> hts_bin_maxpos min_shift m < max_len + 256"
    using r(5) by (simp add: mp)
  ultimately show ?thesis using r(2) by blast
qed

lemma adjust_n_lvls_smallest_example:
  "adjust_n_lvls 14 6 107374182400 = Some 8 \<and> 107374182400 + 256 \<le> hts_bin_maxpos 14 8
     \<and> hts_bin_maxpos 14 7 < 107374182400 + 256"
proof -
  from adjust_n_lvls_smallest [of 14 6 8 107374182400]
  obtain n where n: "adjust_n_lvls 14 6 107374182400 = Some n"
    "6 \<le> n" "107374182400 + 256 \<le> hts_bin_maxpos 14 n"
    "\<forall>m. 6 \<le> m \<and> m < n \<longrightarrow> hts_bin_maxpos 14 m < 107374182400 + 256"
    by auto
  have "adjust_n_lvls 14 6 107374182400 = Some 8"
    by (simp add: adjust_n_lvls_def hts_bin_maxpos_def adjust_loop.simps wrap64_def wrap32_def)
  with n have "n = 8" by simp
  with n show ?thesis by simp
qed

text \<open>Once \<open>s\<close> has been shifted to 0 the loop never returns.\<close>

lemma adjust_loop_returns:
  assumes "adjust_loop max_len n s = Some y"
  shows "\<not> (0 < max_len \<and> s = 0)"
proof (rule adjust_loop.raw_induct [where P = "\<lambda>ml n s y. \<not> (0 < ml \<and> s = 0)", OF _ assms])
  fix f :: "int \<Rightarrow> int \<Rightarrow> int \<Rightarrow> int option" and ml n s y
  assume IH: "\<And>a b c z. f a b c = Some z \<Longrightarrow> \<not> (0 < a \<and> c = 0)"
    and run: "(if s < ml then f ml (wrap32 (n + 1)) (wrap64 (push_bit 3 s)) else Some n) = Some y"
  show "\<not> (0 < ml \<and> s = 0)"
  proof
    assume a: "0 < ml \<and> s = 0"
    then have "f ml (wrap32 (n + 1)) 0 = Some y"
      using run by (simp add: wrap64_def)
    from IH [OF this] a show False by simp
  qed
qed

lemma adjust_loop_zero: "0 < max_len \<Longrightarrow> adjust_loop max_len n 0 = None"
  using adjust_loop_returns [of max_len n 0] by (cases "adjust_loop max_len n 0") auto

lemma adjust_loop_step:
  "s < max_len \<Longrightarrow> adjust_loop max_len n s
     = adjust_loop max_len (wrap32 (n + 1)) (wrap64 (push_bit 3 s))"
  by (subst adjust_loop.simps) simp

text \<open>
  C4: the code fails the claim at the top of the 64-bit range, which a \<^verbatim>\<open>##contig\<close> or
  \<^verbatim>\<open>@SQ\<close> header line can announce. For the maximum length \<open>2^62\<close> the shift \<^verbatim>\<open>s <<= 3\<close>
  overflows to 0 after \<open>s = 2^62\<close> and the loop never returns; for \<open>2^63 - 1\<close> the sum
  \<open>max_len + 256\<close> wraps around, the loop does not run, and the levels returned do not
  cover the length.
\<close>

theorem adjust_n_lvls_overflow:
  "adjust_n_lvls 14 6 (2 ^ 62) = None
   \<and> adjust_n_lvls 14 6 (2 ^ 63 - 1) = Some 6
   \<and> hts_bin_maxpos 14 6 < (2 ^ 63 - 1) + 256"
proof -
  let ?M = "4611686018427388160 :: int"
  have "adjust_loop ?M 6 4294967296 = adjust_loop ?M 7 34359738368"
    by (subst adjust_loop_step) (simp_all add: wrap64_def wrap32_def)
  also have "\<dots> = adjust_loop ?M 8 274877906944"
    by (subst adjust_loop_step) (simp_all add: wrap64_def wrap32_def)
  also have "\<dots> = adjust_loop ?M 9 2199023255552"
    by (subst adjust_loop_step) (simp_all add: wrap64_def wrap32_def)
  also have "\<dots> = adjust_loop ?M 10 17592186044416"
    by (subst adjust_loop_step) (simp_all add: wrap64_def wrap32_def)
  also have "\<dots> = adjust_loop ?M 11 140737488355328"
    by (subst adjust_loop_step) (simp_all add: wrap64_def wrap32_def)
  also have "\<dots> = adjust_loop ?M 12 1125899906842624"
    by (subst adjust_loop_step) (simp_all add: wrap64_def wrap32_def)
  also have "\<dots> = adjust_loop ?M 13 9007199254740992"
    by (subst adjust_loop_step) (simp_all add: wrap64_def wrap32_def)
  also have "\<dots> = adjust_loop ?M 14 72057594037927936"
    by (subst adjust_loop_step) (simp_all add: wrap64_def wrap32_def)
  also have "\<dots> = adjust_loop ?M 15 576460752303423488"
    by (subst adjust_loop_step) (simp_all add: wrap64_def wrap32_def)
  also have "\<dots> = adjust_loop ?M 16 4611686018427387904"
    by (subst adjust_loop_step) (simp_all add: wrap64_def wrap32_def)
  also have "\<dots> = adjust_loop ?M 17 0"
    by (subst adjust_loop_step) (simp_all add: wrap64_def wrap32_def)
  also have "\<dots> = None"
    by (rule adjust_loop_zero) simp
  finally have hang: "adjust_n_lvls 14 6 (2 ^ 62) = None"
    by (simp add: adjust_n_lvls_def hts_bin_maxpos_def wrap64_def)
  have "adjust_n_lvls 14 6 (2 ^ 63 - 1) = Some 6"
    by (simp add: adjust_n_lvls_def hts_bin_maxpos_def adjust_loop.simps wrap64_def wrap32_def)
  moreover have "hts_bin_maxpos 14 6 < (2 ^ 63 - 1) + 256"
    by (simp add: hts_bin_maxpos_def wrap64_def)
  ultimately show ?thesis using hang by simp
qed


section \<open>C9: the caller's buffer\<close>

text \<open>
  C9: for every configuration and every line, when \<^verbatim>\<open>tbx_parse1\<close> returns, with success or
  with failure, the caller's buffer holds what it held on entry: every byte the ALT, INFO,
  FORMAT and sample scans overwrite is put back.
\<close>

theorem tbx_parse1_restores_line:
  "line (snd (tbx_parse1 svl conf len (init_state ln stack rep ws))) = ln"
  using tbx_parse1_line [of svl conf len "init_state ln stack rep ws"]
  by (simp add: init_state_def)

theorem tbx_parse1_restores_line_witness:
  "line (snd (parse_line symbolic_alt tbx_conf_vcf (\<lambda>_. 0) False []
      (tsv [''chr1'', ''100'', ''.'', ''A'', ''<DEL>,<*>'', ''.'', ''.'', ''END=120;SVLEN=-7,.'',
            ''GT:LEN'', ''0/0:5''])))
   = kstring (tsv [''chr1'', ''100'', ''.'', ''A'', ''<DEL>,<*>'', ''.'', ''.'', ''END=120;SVLEN=-7,.'',
            ''GT:LEN'', ''0/0:5''])"
  unfolding parse_line_def by (rule tbx_parse1_restores_line)


section \<open>C3: the coordinates returned\<close>

lemma vcf_inv_init: "vcf_inv len (init_state ln stack rep ws)"
  by (simp add: vcf_inv_def init_state_def)

lemma tbx_parse1_vcf_end_pos:
  assumes "preset_tag conf = TBX_VCF" "len < 2 ^ 63"
    and "tbx_parse1 svl conf len (init_state ln stack rep ws) = (0, st)"
  shows "1 \<le> intv_end st"
proof -
  have "\<exists>st2. vcf_inv len st2 \<and> finish conf st2 = (0, st)"
  proof (rule tbx_parse1_inv [where P = "vcf_inv len" and Q = "vcf_inv len", OF vcf_inv_init _ _ _ assms(3)])
    fix i st0 st'
    assume "vcf_inv len st0" "i \<le> len" "handle_field svl conf i st0 = Continue st'"
    then have "vcf_inv len st'"
      using vcf_inv_handle_field [OF assms(1) _ _ assms(2)] by blast
    then show "vcf_inv len (st'\<lparr>field_b := i + 1, field_id := field_id st' + 1\<rparr>)" by simp
  next
    fix i st0 st'
    assume "vcf_inv len st0" "i \<le> len" "handle_field svl conf i st0 = Break st'"
    then show "vcf_inv len st'"
      using vcf_inv_handle_field [OF assms(1) _ _ assms(2)] by blast
  qed
  then obtain st2 where st2: "vcf_inv len st2" "finish conf st2 = (0, st)" by blast
  have st: "st = vcf_end st2"
    using finish_state [OF st2(2)] assms(1) by simp
  have pos: "0 \<le> intv_beg st" "0 \<le> intv_end st"
    using finish_success [OF st2(2)] by simp_all
  have "0 \<le> intv_beg st2" using pos(1) by (simp add: st vcf_end_frame)
  moreover have "0 \<le> intv_end (vcf_end st2)" using pos(2) by (simp add: st)
  ultimately show ?thesis
    using vcf_inv_end [OF st2(1) assms(2)] by (simp add: st)
qed

text \<open>
  C3 as stated fails: with the BED configuration the line \<^verbatim>\<open>chr1 0 0\<close> parses successfully
  and its end is 0, the value of the end column.
\<close>

theorem end_below_one_counterexample:
  "fst (parse_line symbolic_alt tbx_conf_bed (\<lambda>_. 0) False [] (tsv [''chr1'', ''0'', ''0''])) = 0
   \<and> \<not> (0 \<le> intv_beg (snd (parse_line symbolic_alt tbx_conf_bed (\<lambda>_. 0) False []
                              (tsv [''chr1'', ''0'', ''0''])))
        \<and> 1 \<le> intv_end (snd (parse_line symbolic_alt tbx_conf_bed (\<lambda>_. 0) False []
                              (tsv [''chr1'', ''0'', ''0'']))))"
  by code_simp

text \<open>
  C3 (amended): for every preset and every line that \<^verbatim>\<open>tbx_parse1\<close> parses successfully,
  begin and end are not negative. Reading the begin column (every preset but GAF) clamps a
  negative begin to 0 and raises end to at least 1; this is before the later columns are
  read, and for the VCF preset they keep end at 1 or more (lines shorter than \<open>2^63\<close> bytes).
\<close>

theorem tbx_parse1_coordinates:
  "(tbx_parse1 svl conf len (init_state ln stack rep ws) = (0, st)
      \<longrightarrow> 0 \<le> intv_beg st \<and> 0 \<le> intv_end st
          \<and> (preset_tag conf = TBX_VCF \<and> len < 2 ^ 63 \<longrightarrow> 1 \<le> intv_end st))
   \<and> (begin_column conf st0 = Continue st1 \<longrightarrow> 0 \<le> intv_beg st1 \<and> 1 \<le> intv_end st1)"
proof (intro conjI impI)
  assume a: "tbx_parse1 svl conf len (init_state ln stack rep ws) = (0, st)"
  show "0 \<le> intv_beg st" "0 \<le> intv_end st"
    using tbx_parse1_success [OF a] by simp_all
  assume "preset_tag conf = TBX_VCF \<and> len < 2 ^ 63"
  then show "1 \<le> intv_end st"
    using tbx_parse1_vcf_end_pos [OF _ _ a] by simp
next
  assume "begin_column conf st0 = Continue st1"
  then show "0 \<le> intv_beg st1" "1 \<le> intv_end st1"
    using begin_column_clamp [of conf st0 st1] by simp_all
qed

theorem tbx_parse1_coordinates_witness:
  "fst (parse_line symbolic_alt tbx_conf_vcf (\<lambda>_. 0) False [] (tsv [''chr1'', ''-5'', ''.'', ''A'', ''T''])) = 0
   \<and> preset_tag tbx_conf_vcf = TBX_VCF \<and> length (tsv [''chr1'', ''-5'', ''.'', ''A'', ''T'']) < 2 ^ 63
   \<and> intv_beg (snd (parse_line symbolic_alt tbx_conf_vcf (\<lambda>_. 0) False []
        (tsv [''chr1'', ''-5'', ''.'', ''A'', ''T'']))) = 0
   \<and> 1 \<le> intv_end (snd (parse_line symbolic_alt tbx_conf_vcf (\<lambda>_. 0) False []
        (tsv [''chr1'', ''-5'', ''.'', ''A'', ''T''])))"
proof -
  define s where "s = tsv [''chr1'', ''-5'', ''.'', ''A'', ''T'']"
  define r where "r = parse_line symbolic_alt tbx_conf_vcf (\<lambda>_. 0) False [] s"
  have ok: "fst r = 0" unfolding r_def s_def by code_simp
  have b: "intv_beg (snd r) = 0" unfolding r_def s_def by code_simp
  have tag: "preset_tag tbx_conf_vcf = TBX_VCF" by code_simp
  have len: "length s < 2 ^ 63" by (simp add: s_def tsv_def)
  have "tbx_parse1 symbolic_alt tbx_conf_vcf (length s) (init_state (kstring s) (\<lambda>_. 0) False [])
        = (0, snd r)"
    using ok by (simp add: r_def parse_line_def prod_eq_iff)
  then have "1 \<le> intv_end (snd r)"
    using tbx_parse1_coordinates [of symbolic_alt tbx_conf_vcf "length s" "kstring s" "\<lambda>_. 0" False "[]" "snd r"]
      tag len by simp
  with ok b tag len show ?thesis by (simp add: r_def s_def)
qed


section \<open>C7: the warnings of one process\<close>

text \<open>
  C7 as stated fails for the warning about a negative begin: it has no latch. Two calls
  on the VCF line \<^verbatim>\<open>chr1 -5\<close> both emit it.
\<close>

theorem coordinate_warning_twice_counterexample:
  "n_coordinate (snd (parse_calls symbolic_alt
      [kcall tbx_conf_vcf (tsv [''chr1'', ''-5'']),
       kcall tbx_conf_vcf (tsv [''chr1'', ''-5''])] (False, []))) = 2"
  by code_simp

text \<open>
  C7 (amended): across any sequence of \<^verbatim>\<open>tbx_parse1\<close> calls within one process the warning
  for an invalid VCF INFO/END is emitted at most once, suppressed after its first
  occurrence by a per-process latch. The warning for a negative begin has no latch: each
  call emits it at most once, so a sequence of calls emits it at most once per call.
\<close>

theorem warnings_per_process:
  "n_info_end (snd (parse_calls svl calls (False, []))) \<le> 1
   \<and> n_coordinate (snd (parse_calls svl calls (False, []))) \<le> length calls"
proof
  have "n_info_end (snd (parse_calls svl calls (False, [])))
        \<le> (if fst (parse_calls svl calls (False, [])) then 1 else 0)"
    by (rule parse_calls_latch) (simp add: n_info_end_def)
  then show "n_info_end (snd (parse_calls svl calls (False, []))) \<le> 1"
    by (simp split: if_splits)
  show "n_coordinate (snd (parse_calls svl calls (False, []))) \<le> length calls"
    using parse_calls_coordinate [of svl calls "(False, [])"] by (simp add: n_coordinate_def)
qed

theorem warnings_per_process_witness:
  "n_info_end (snd (parse_calls symbolic_alt
      [kcall tbx_conf_vcf (tsv [''chr1'', ''100'', ''.'', ''A'', ''T'', ''.'', ''.'', ''END=50'']),
       kcall tbx_conf_vcf (tsv [''chr1'', ''200'', ''.'', ''A'', ''T'', ''.'', ''.'', ''END=70''])]
      (False, []))) = 1"
proof -
  have "1 \<le> n_info_end (snd (parse_calls symbolic_alt
      [kcall tbx_conf_vcf (tsv [''chr1'', ''100'', ''.'', ''A'', ''T'', ''.'', ''.'', ''END=50'']),
       kcall tbx_conf_vcf (tsv [''chr1'', ''200'', ''.'', ''A'', ''T'', ''.'', ''.'', ''END=70''])]
      (False, [])))"
    by code_simp
  then show ?thesis
    using warnings_per_process [of symbolic_alt
      "[kcall tbx_conf_vcf (tsv [''chr1'', ''100'', ''.'', ''A'', ''T'', ''.'', ''.'', ''END=50'']),
       kcall tbx_conf_vcf (tsv [''chr1'', ''200'', ''.'', ''A'', ''T'', ''.'', ''.'', ''END=70''])]"]
    by linarith
qed


section \<open>C2: a region string that is itself a name\<close>

lemma hts_memrchr_Some:
  "hts_memrchr xs c = Some k \<Longrightarrow> take k xs = rev (tl (dropWhile (\<lambda>x. x \<noteq> c) (rev xs)))"
proof (induction xs arbitrary: k)
  case Nil
  then show ?case by simp
next
  case (Cons x xs)
  show ?case
  proof (cases "hts_memrchr xs c")
    case None
    have notin: "c \<notin> set xs"
      using None by (induction xs) (auto split: option.splits if_splits)
    from Cons.prems None have k: "x = c" "k = 0" by (auto split: if_splits)
    have "dropWhile (\<lambda>x. x \<noteq> c) (rev xs @ [x]) = [x]"
      using notin k by (simp add: dropWhile_append)
    then show ?thesis using k by simp
  next
    case (Some j)
    with Cons.prems have k: "k = Suc j" by simp
    have "c \<in> set xs"
      using Some by (induction xs arbitrary: j) (auto split: option.splits if_splits)
    then have "dropWhile (\<lambda>x. x \<noteq> c) (rev xs @ [x]) = dropWhile (\<lambda>x. x \<noteq> c) (rev xs) @ [x]"
      by (simp add: dropWhile_append)
    moreover have "dropWhile (\<lambda>x. x \<noteq> c) (rev xs) \<noteq> []"
      using \<open>c \<in> set xs\<close> by simp
    ultimately have "rev (tl (dropWhile (\<lambda>x. x \<noteq> c) (rev (x # xs))))
        = x # rev (tl (dropWhile (\<lambda>x. x \<noteq> c) (rev xs)))"
      by simp
    then show ?thesis using Cons.IH [OF Some] k by simp
  qed
qed

lemma hts_memrchr_None: "hts_memrchr xs c = None \<Longrightarrow> c \<notin> set xs"
  by (induction xs) (auto split: option.splits if_splits)

lemma strchr_takeWhile:
  "NUL \<notin> set xs \<Longrightarrow> c \<noteq> NUL \<Longrightarrow>
   strchr (xs @ [NUL]) c = (if c \<in> set xs then Some (length (takeWhile (\<lambda>x. x \<noteq> c) xs)) else None)"
  by (induction xs) auto

lemma list_flag:
  "flags AND HTS_PARSE_LIST \<noteq> 0
     \<Longrightarrow> (flags AND NOT HTS_PARSE_THOUSANDS_SEP) AND HTS_PARSE_LIST \<noteq> 0"
  "flags AND HTS_PARSE_LIST = 0
     \<Longrightarrow> (flags OR HTS_PARSE_THOUSANDS_SEP) AND HTS_PARSE_LIST = 0"
proof -
  have 4: "x AND HTS_PARSE_LIST \<noteq> 0 \<longleftrightarrow> bit x 2" for x :: int
    using bit_iff_and_push_bit_not_eq_0 [of x 2] by (simp add: HTS_PARSE_LIST_def)
  show "flags AND HTS_PARSE_LIST \<noteq> 0
     \<Longrightarrow> (flags AND NOT HTS_PARSE_THOUSANDS_SEP) AND HTS_PARSE_LIST \<noteq> 0"
    unfolding 4 by (simp add: HTS_PARSE_THOUSANDS_SEP_def bit_simps)
  have "\<not> ((flags OR HTS_PARSE_THOUSANDS_SEP) AND HTS_PARSE_LIST \<noteq> 0)"
    if "\<not> (flags AND HTS_PARSE_LIST \<noteq> 0)"
    using that unfolding 4 by (simp add: HTS_PARSE_THOUSANDS_SEP_def bit_simps)
  then show "flags AND HTS_PARSE_LIST = 0
     \<Longrightarrow> (flags OR HTS_PARSE_THOUSANDS_SEP) AND HTS_PARSE_LIST = 0"
    by simp
qed

text \<open>
  C2 as stated fails when \<^verbatim>\<open>kputsn\<close> gets no memory: the string \<^verbatim>\<open>HLA-DRB1*12:17\<close> is a
  name and what stands before its last colon is none, yet the call answers the null pointer
  with tid -2 and not the name.
\<close>

theorem region_no_memory_counterexample:
  "hts_parse_region
     (\<lambda>n. if n = ''chr1'' then 0 else if n = ''chr1:100-200'' then 1
           else if n = ''HLA-DRB1*12:17'' then 2 else - 1)
     (\<lambda>t f. strtoll 10 t) False ''HLA-DRB1*12:17'' 1
     \<lparr>r_tid = 7, r_beg = 7, r_end = 7, r_ret = Some 0, r_log = []\<rparr>
   = \<lparr>r_tid = - 2, r_beg = 0, r_end = HTS_POS_MAX, r_ret = None, r_log = []\<rparr>"
  by (simp add: hts_parse_region_def Let_def HTS_PARSE_LIST_def HTS_PARSE_THOUSANDS_SEP_def
      NUL_def)

text \<open>
  C2 (amended): on an unbraced region string with a colon in it whose whole resolves to a
  name: if \<^verbatim>\<open>kputsn\<close> gets no memory the call fails with tid -2 and logs nothing; otherwise,
  when the prefix before the rightmost colon resolves too, parsing fails (null pointer,
  tid -1) and the one error logged is that the range is ambiguous; when only the whole
  string resolves, it is the name, with \<open>beg = 0\<close> and \<open>end = HTS_POS_MAX\<close>, and nothing is
  logged. In each case \<open>beg = 0\<close> and \<open>end = HTS_POS_MAX\<close> are written. With the list flag the
  string is the item before the first comma.
\<close>

theorem region_whole_name:
  assumes "NUL \<notin> set s" and "s = [] \<or> hd s \<noteq> CHR ''{''"
    and "CHR '':'' \<in> set (region_item s flags)"
    and "0 \<le> getid (region_item s flags)"
  shows "hts_parse_region getid pd alloc_ok s flags out =
      (if \<not> alloc_ok
       then out\<lparr>r_tid := - 2, r_beg := 0, r_end := HTS_POS_MAX, r_ret := None\<rparr>
       else if 0 \<le> getid (before_last_colon (region_item s flags))
       then out\<lparr>r_tid := - 1, r_beg := 0, r_end := HTS_POS_MAX, r_ret := None,
                r_log := r_log out @ [Range_ambiguous]\<rparr>
       else out\<lparr>r_tid := getid (region_item s flags), r_beg := 0, r_end := HTS_POS_MAX,
                r_ret := Some (region_end s flags)\<rparr>)"
proof -
  define item where "item = region_item s flags"
  define n where "n = length (takeWhile (\<lambda>c. c \<noteq> CHR '','') s)"
  have nb: "(s @ [NUL]) ! 0 \<noteq> CHR ''{''"
    using assms(2) by (cases s) (auto simp: NUL_def)
  have cs: "c_strchr (s @ [NUL]) 0 (CHR '','') = (if CHR '','' \<in> set s then Some n else None)"
    using strchr_takeWhile [OF assms(1), of "CHR '',''"]
    by (simp add: c_strchr_def NUL_def n_def)
  obtain col where col: "hts_memrchr item (CHR '':'') = Some col"
    using assms(3) hts_memrchr_None [of item "CHR '':''"]
    by (cases "hts_memrchr item (CHR '':'')") (auto simp: item_def)
  have pre_item: "take col item = before_last_colon item"
    using hts_memrchr_Some [OF col] by (simp add: before_last_colon_def)
  have "k < length xs" if "hts_memrchr xs c = Some k" for xs :: "char list" and c k
    using that by (induction xs arbitrary: k) (auto split: option.splits if_splits)
  from this [OF col] have col_lt: "col < length item" .
  have whole: "0 \<le> getid item" using assms(4) by (simp add: item_def)
  consider (cut) "flags AND HTS_PARSE_LIST \<noteq> 0" "CHR '','' \<in> set s"
    | (all) "flags AND HTS_PARSE_LIST \<noteq> 0" "CHR '','' \<notin> set s"
    | (plain) "flags AND HTS_PARSE_LIST = 0"
    by blast
  then have run: "hts_parse_region getid pd alloc_ok s flags out =
      (if \<not> alloc_ok
       then out\<lparr>r_beg := 0, r_end := HTS_POS_MAX, r_tid := - 2, r_ret := None\<rparr>
       else if 0 \<le> getid (before_last_colon item)
       then out\<lparr>r_beg := 0, r_end := HTS_POS_MAX, r_tid := - 1, r_ret := None,
                r_log := r_log out @ [Range_ambiguous]\<rparr>
       else out\<lparr>r_beg := 0, r_end := HTS_POS_MAX, r_tid := getid item,
                r_ret := Some (region_end s flags)\<rparr>)"
  proof cases
    case cut
    have item: "take n s = item"
      using cut by (simp add: item_def region_item_def n_def takeWhile_eq_take [symmetric])
    have pre: "take col s = before_last_colon item"
      using pre_item col_lt item by (metis length_take min.absorb4 min_less_iff_conj take_take)
    have e: "region_end s flags = n + 1"
      using cut by (simp add: region_end_def n_def)
    show ?thesis
      using cut nb whole col
      by (simp add: hts_parse_region_def Let_def list_flag cs item pre e log_error_def)
  next
    case all
    have item: "item = s"
      using all by (auto simp: item_def region_item_def takeWhile_eq_all_conv)
    have e: "region_end s flags = length s"
      using all by (simp add: region_end_def)
    show ?thesis
      using all nb whole col pre_item
      by (simp add: hts_parse_region_def Let_def list_flag cs item e log_error_def)
  next
    case plain
    have item: "item = s"
      using plain by (simp add: item_def region_item_def)
    have e: "region_end s flags = length s"
      using plain by (simp add: region_end_def)
    show ?thesis
      using plain nb whole col pre_item
      by (simp add: hts_parse_region_def Let_def list_flag item e log_error_def)
  qed
  show ?thesis
    unfolding item_def [symmetric] run by simp
qed

theorem region_whole_name_witness:
  "hts_parse_region
     (\<lambda>n. if n = ''chr1'' then 0 else if n = ''chr1:100-200'' then 1
           else if n = ''HLA-DRB1*12:17'' then 2 else - 1)
     (\<lambda>t f. strtoll 10 t) True ''HLA-DRB1*12:17'' 1
     \<lparr>r_tid = 7, r_beg = 7, r_end = 7, r_ret = None, r_log = []\<rparr>
     = \<lparr>r_tid = 2, r_beg = 0, r_end = HTS_POS_MAX, r_ret = Some 14, r_log = []\<rparr>
   \<and> hts_parse_region
     (\<lambda>n. if n = ''chr1'' then 0 else if n = ''chr1:100-200'' then 1
           else if n = ''HLA-DRB1*12:17'' then 2 else - 1)
     (\<lambda>t f. strtoll 10 t) True ''chr1:100-200'' 1
     \<lparr>r_tid = 7, r_beg = 7, r_end = 7, r_ret = Some 0, r_log = []\<rparr>
     = \<lparr>r_tid = - 1, r_beg = 0, r_end = HTS_POS_MAX, r_ret = None, r_log = [Range_ambiguous]\<rparr>
   \<and> hts_parse_region
     (\<lambda>n. if n = ''chr1'' then 0 else if n = ''chr1:100-200'' then 1
           else if n = ''HLA-DRB1*12:17'' then 2 else - 1)
     (\<lambda>t f. strtoll 10 t) False ''chr1:100-200'' 1
     \<lparr>r_tid = 7, r_beg = 7, r_end = 7, r_ret = Some 0, r_log = []\<rparr>
     = \<lparr>r_tid = - 2, r_beg = 0, r_end = HTS_POS_MAX, r_ret = None, r_log = []\<rparr>"
proof -
  define getid :: "string \<Rightarrow> int" where
    "getid = (\<lambda>n. if n = ''chr1'' then 0 else if n = ''chr1:100-200'' then 1
           else if n = ''HLA-DRB1*12:17'' then 2 else - 1)"
  define pd :: "char list \<Rightarrow> int \<Rightarrow> int \<times> nat" where "pd = (\<lambda>t f. strtoll 10 t)"
  define out where "out = \<lparr>r_tid = 7, r_beg = 7, r_end = 7, r_ret = None, r_log = []\<rparr>"
  define out2 where "out2 = \<lparr>r_tid = 7, r_beg = 7, r_end = 7, r_ret = Some 0, r_log = []\<rparr>"
  have 1: "region_item ''HLA-DRB1*12:17'' 1 = ''HLA-DRB1*12:17''"
    "region_item ''chr1:100-200'' 1 = ''chr1:100-200''"
    by (simp_all add: region_item_def HTS_PARSE_LIST_def)
  have 2: "before_last_colon ''HLA-DRB1*12:17'' = ''HLA-DRB1*12''"
    "before_last_colon ''chr1:100-200'' = ''chr1''"
    by (simp_all add: before_last_colon_def)
  have 3: "region_end ''HLA-DRB1*12:17'' 1 = 14"
    by (simp add: region_end_def HTS_PARSE_LIST_def)
  have a: "hts_parse_region getid pd True ''HLA-DRB1*12:17'' 1 out
     = \<lparr>r_tid = 2, r_beg = 0, r_end = HTS_POS_MAX, r_ret = Some 14, r_log = []\<rparr>"
    using region_whole_name [of "''HLA-DRB1*12:17''" 1 getid pd True out]
    by (simp add: 1 2 3 NUL_def getid_def out_def)
  have b: "hts_parse_region getid pd True ''chr1:100-200'' 1 out2
     = \<lparr>r_tid = - 1, r_beg = 0, r_end = HTS_POS_MAX, r_ret = None, r_log = [Range_ambiguous]\<rparr>"
    using region_whole_name [of "''chr1:100-200''" 1 getid pd True out2]
    by (simp add: 1 2 NUL_def getid_def out2_def)
  have c: "hts_parse_region getid pd False ''chr1:100-200'' 1 out2
     = \<lparr>r_tid = - 2, r_beg = 0, r_end = HTS_POS_MAX, r_ret = None, r_log = []\<rparr>"
    using region_whole_name [of "''chr1:100-200''" 1 getid pd False out2]
    by (simp add: 1 2 NUL_def getid_def out2_def)
  from a b c show ?thesis by (simp add: getid_def pd_def out_def out2_def)
qed

text \<open>
  Behind the colon: when something other than the end of the string or a comma follows the
  end coordinate, the call fails after it has stored that coordinate.
\<close>

lemma region_trailing_text:
  "hts_parse_region (\<lambda>n. if n = ''chr1'' then 0 else - 1) (\<lambda>t f. strtoll 10 t) True
     ''chr1:5-10x'' 0 \<lparr>r_tid = 7, r_beg = 7, r_end = 7, r_ret = Some 0, r_log = []\<rparr>
   = \<lparr>r_tid = 0, r_beg = 4, r_end = 10, r_ret = None, r_log = [Unexpected_string 9]\<rparr>"
  by code_simp


section \<open>C5: ids in the order of insertion\<close>

lemma entries_snoc: "entries (ds @ [n]) = entries ds @ [(n, int (length ds))]"
  by (simp add: entries_def)

lemma map_of_entries_None: "n \<notin> set ds \<Longrightarrow> map_of (entries ds) n = None"
  by (auto simp: entries_def map_of_eq_None_iff dest: set_zip_leftD)

lemma map_of_entries_Some:
  "distinct ds \<Longrightarrow> k < length ds \<Longrightarrow> map_of (entries ds) (ds ! k) = Some (int k)"
proof -
  assume d: "distinct ds" and k: "k < length ds"
  have "(ds ! k, int k) \<in> set (entries ds)"
    using k by (auto simp: entries_def in_set_zip intro!: exI [of _ k])
  moreover have "distinct (map fst (entries ds))"
    using d by (simp add: entries_def)
  ultimately show ?thesis by (rule map_of_is_SomeI [rotated])
qed

lemma get_tid_lookup:
  assumes "preset_tag (tbx_conf tbx) \<noteq> TBX_GAF" "dict_holds tbx ds" "tbx_dict tbx \<noteq> None"
    and "k < length ds" "length ds \<le> 2 ^ 31"
  shows "get_tid No_oom tbx (ds ! k) is_add = (tbx, int k)"
proof -
  have d: "tbx_dict tbx = Some (entries ds)" "distinct ds"
    using assms(2,3) by (auto simp: dict_holds_def)
  have "wrap32 (int k) = int k"
    using assms(4,5) by (intro wrap32_id) simp_all
  then show ?thesis
    using assms(1) d map_of_entries_Some [OF d(2) assms(4)]
    by (simp add: get_tid_def Let_def)
qed

lemma get_tid_add:
  assumes "preset_tag (tbx_conf tbx) \<noteq> TBX_GAF" "dict_holds tbx ds" "n \<notin> set ds"
    and "length ds < 2 ^ 31"
  shows "get_tid No_oom tbx n True = (tbx\<lparr>tbx_dict := Some (entries (ds @ [n]))\<rparr>, int (length ds))"
proof -
  have w: "wrap32 (int (length ds)) = int (length ds)"
    using assms(4) by (intro wrap32_id) simp_all
  show ?thesis
  proof (cases "tbx_dict tbx")
    case None
    then have "ds = []" using assms(2) by (simp add: dict_holds_def)
    then show ?thesis
      using assms(1) None by (simp add: get_tid_def Let_def entries_def wrap32_def)
  next
    case (Some d)
    then have d: "d = entries ds" using assms(2) by (simp add: dict_holds_def)
    have len: "length (entries ds) = length ds" by (simp add: entries_def)
    show ?thesis
      using assms(1) Some map_of_entries_None [OF assms(3)] w
      by (simp add: get_tid_def Let_def d entries_snoc len)
  qed
qed

lemma first_seen_prefix: "\<exists>zs. first_seen ds ns = ds @ zs"
  by (induction ns arbitrary: ds) (auto, metis append.assoc)

lemma first_seen_ge: "length ds \<le> length (first_seen ds ns)"
  using first_seen_prefix [of ds ns] by auto

lemma first_seen_length: "length (first_seen ds ns) \<le> length ds + length ns"
proof (induction ns arbitrary: ds)
  case Nil
  then show ?case by simp
next
  case (Cons n ns)
  show ?case
    using Cons.IH [of "if n \<in> set ds then ds else ds @ [n]"] by (simp split: if_splits)
qed

lemma first_seen_distinct: "distinct (ds @ ns) \<Longrightarrow> first_seen ds ns = ds @ ns"
  by (induction ns arbitrary: ds) auto

lemma add_names_length: "length (snd (add_names tbx ns)) = length ns"
  by (induction ns arbitrary: tbx) (simp_all add: Let_def)

lemma add_names_holds:
  assumes "preset_tag (tbx_conf tbx) \<noteq> TBX_GAF" "dict_holds tbx ds"
    and "length (first_seen ds ns) \<le> 2 ^ 31"
  shows "dict_holds (fst (add_names tbx ns)) (first_seen ds ns)
       \<and> tbx_conf (fst (add_names tbx ns)) = tbx_conf tbx
       \<and> (ns \<noteq> [] \<longrightarrow> tbx_dict (fst (add_names tbx ns)) \<noteq> None)
       \<and> (\<forall>j k. j < length ns \<and> k < length (first_seen ds ns) \<and> ns ! j = first_seen ds ns ! k
              \<longrightarrow> snd (add_names tbx ns) ! j = int k)"
  using assms
proof (induction ns arbitrary: tbx ds)
  case Nil
  then show ?case by simp
next
  case (Cons n ns)
  define ds' where "ds' = (if n \<in> set ds then ds else ds @ [n])"
  define r where "r = get_tid No_oom tbx n True"
  have dist: "distinct ds" using Cons.prems(2) by (simp add: dict_holds_def)
  have fs: "first_seen ds (n # ns) = first_seen ds' ns" by (simp add: ds'_def)
  have len': "length (first_seen ds' ns) \<le> 2 ^ 31"
    using Cons.prems(3) by (simp only: fs)
  have lds': "length ds' \<le> 2 ^ 31"
    using first_seen_ge [of ds' ns] len' by linarith
  have r: "dict_holds (fst r) ds' \<and> tbx_conf (fst r) = tbx_conf tbx \<and> tbx_dict (fst r) \<noteq> None
           \<and> (\<forall>k < length ds'. n = ds' ! k \<longrightarrow> snd r = int k)"
  proof (cases "n \<in> set ds")
    case True
    then obtain i where i: "i < length ds" "ds ! i = n" by (auto simp: in_set_conv_nth)
    have nn: "tbx_dict tbx \<noteq> None"
      using True Cons.prems(2) by (auto simp: dict_holds_def)
    have "r = (tbx, int i)"
      unfolding r_def using get_tid_lookup [OF Cons.prems(1,2) nn i(1)] lds' True i(2)
      by (simp add: ds'_def)
    moreover have "k = i" if "k < length ds" "n = ds ! k" for k
      using that i dist by (simp add: nth_eq_iff_index_eq)
    ultimately show ?thesis
      using True Cons.prems(2) nn by (auto simp: ds'_def)
  next
    case False
    have "r = (tbx\<lparr>tbx_dict := Some (entries (ds @ [n]))\<rparr>, int (length ds))"
      unfolding r_def using lds' False
      by (intro get_tid_add [OF Cons.prems(1,2) False]) (simp add: ds'_def)
    moreover have "k = length ds" if "k < Suc (length ds)" "n = (ds @ [n]) ! k" for k
      using that False by (cases "k < length ds") (auto simp: nth_append)
    ultimately show ?thesis
      using False dist by (auto simp: ds'_def dict_holds_def)
  qed
  have tag': "preset_tag (tbx_conf (fst r)) \<noteq> TBX_GAF" using r Cons.prems(1) by simp
  note IH = Cons.IH [OF tag' _ len', of ] 
  have IH': "dict_holds (fst (add_names (fst r) ns)) (first_seen ds' ns)
       \<and> tbx_conf (fst (add_names (fst r) ns)) = tbx_conf (fst r)
       \<and> (ns \<noteq> [] \<longrightarrow> tbx_dict (fst (add_names (fst r) ns)) \<noteq> None)
       \<and> (\<forall>j k. j < length ns \<and> k < length (first_seen ds' ns) \<and> ns ! j = first_seen ds' ns ! k
              \<longrightarrow> snd (add_names (fst r) ns) ! j = int k)"
    using IH r by blast
  have unf: "add_names tbx (n # ns) = (fst (add_names (fst r) ns), snd r # snd (add_names (fst r) ns))"
    by (simp add: Let_def r_def)
  obtain zs where zs: "first_seen ds' ns = ds' @ zs" using first_seen_prefix by blast
  have nn: "tbx_dict (fst (add_names (fst r) ns)) \<noteq> None"
  proof (cases "ns = []")
    case True
    then show ?thesis using r by simp
  next
    case False
    then show ?thesis using IH' by simp
  qed
  have ids: "snd (add_names tbx (n # ns)) ! j = int k"
    if "j < length (n # ns)" "k < length (first_seen ds' ns)" "(n # ns) ! j = first_seen ds' ns ! k" for j k
  proof (cases j)
    case 0
    have dall: "distinct (first_seen ds' ns)" using IH' by (simp add: dict_holds_def)
    have "n \<in> set ds'" by (simp add: ds'_def)
    then obtain i where i: "i < length ds'" "ds' ! i = n" by (auto simp: in_set_conv_nth)
    then have "first_seen ds' ns ! i = n" by (simp add: zs nth_append)
    moreover have "i < length (first_seen ds' ns)" using i by (simp add: zs)
    ultimately have "k = i"
      using that 0 dall by (simp add: nth_eq_iff_index_eq)
    then show ?thesis unfolding unf using r i 0 by simp
  next
    case (Suc j')
    then show ?thesis unfolding unf using that IH' by simp
  qed
  have "dict_holds (fst (add_names tbx (n # ns))) (first_seen ds' ns)"
    "tbx_conf (fst (add_names tbx (n # ns))) = tbx_conf tbx"
    "tbx_dict (fst (add_names tbx (n # ns))) \<noteq> None"
    unfolding unf using IH' r nn by simp_all
  then show ?case
    unfolding fs using ids by blast
qed

lemma dict_holds_ids:
  assumes "preset_tag (tbx_conf tbx) \<noteq> TBX_GAF" "dict_holds tbx ds" "length ds \<le> 2 ^ 31"
  shows "ids_in_order tbx ds"
proof (cases "tbx_dict tbx")
  case None
  then have "ds = []" using assms(2) by (simp add: dict_holds_def)
  then show ?thesis by (simp add: ids_in_order_def)
next
  case (Some d)
  then have "tbx_name2id No_oom tbx (ds ! k) = (tbx, int k)" if "k < length ds" for k
    unfolding tbx_name2id_def using that by (intro get_tid_lookup [OF assms(1,2) _ _ assms(3)]) simp_all
  then show ?thesis by (simp add: ids_in_order_def list_all_iff)
qed

lemma get_tid_add_nonneg:
  assumes "preset_tag (tbx_conf tbx) \<noteq> TBX_GAF" "dict_holds tbx ds"
    and "length (first_seen ds [n]) \<le> 2 ^ 31"
  shows "0 \<le> snd (get_tid No_oom tbx n True)"
proof (cases "n \<in> set ds")
  case True
  then obtain i where i: "i < length ds" "ds ! i = n" by (auto simp: in_set_conv_nth)
  have nn: "tbx_dict tbx \<noteq> None"
    using True assms(2) by (auto simp: dict_holds_def)
  show ?thesis
    using get_tid_lookup [OF assms(1,2) nn i(1), of True] assms(3) True i(2) by simp
next
  case False
  then have "length ds < 2 ^ 31" using assms(3) by simp
  then show ?thesis using get_tid_add [OF assms(1,2) False] by simp
qed

lemma block_names_length: "length (block_names meta l_nm p) \<le> l_nm - p"
proof (induction meta l_nm p rule: block_names.induct)
  case (1 meta l_nm p)
  show ?case
  proof (cases "p < l_nm")
    case True
    then show ?thesis
      using "1.IH" [OF True] by (subst block_names.simps) simp
  next
    case False
    then show ?thesis by (subst block_names.simps) simp
  qed
qed

lemma load_names_add:
  assumes "\<forall>k. mem k = No_oom" "preset_tag (tbx_conf tbx) \<noteq> TBX_GAF" "dict_holds tbx ds"
    and "length (first_seen ds (block_names meta l_nm p)) \<le> 2 ^ 31"
  shows "load_names mem meta l_nm p k tbx = Some (fst (add_names tbx (block_names meta l_nm p)))"
  using assms
proof (induction mem meta l_nm p k tbx arbitrary: ds rule: load_names.induct)
  case (1 mem meta l_nm p k tbx)
  show ?case
  proof (cases "p < l_nm")
    case False
    then show ?thesis
      by (subst load_names.simps, subst block_names.simps) simp
  next
    case True
    define name where "name = cstr (drop (28 + p) meta)"
    define r where "r = get_tid No_oom tbx name True"
    have mk: "mem k = No_oom" using "1.prems"(1) by simp
    have bn: "block_names meta l_nm p = name # block_names meta l_nm (p + (length name + 1))"
      using True by (subst block_names.simps) (simp add: name_def)
    have fs: "first_seen ds (block_names meta l_nm p)
        = first_seen (first_seen ds [name]) (block_names meta l_nm (p + (length name + 1)))"
      by (simp add: bn)
    have len': "length (first_seen (first_seen ds [name])
        (block_names meta l_nm (p + (length name + 1)))) \<le> 2 ^ 31"
      using "1.prems"(4) by (simp only: fs)
    have len: "length (first_seen ds [name]) \<le> 2 ^ 31"
      using first_seen_ge [of "first_seen ds [name]" "block_names meta l_nm (p + (length name + 1))"]
        len' by linarith
    have nonneg: "\<not> snd r < 0"
      using get_tid_add_nonneg [OF "1.prems"(2,3) len] by (simp add: r_def)
    have h: "dict_holds (fst r) (first_seen ds [name])" "tbx_conf (fst r) = tbx_conf tbx"
      using add_names_holds [OF "1.prems"(2,3) len] by (simp_all add: Let_def r_def)
    have tag': "preset_tag (tbx_conf (fst r)) \<noteq> TBX_GAF"
      using h(2) "1.prems"(2) by simp
    have r': "r = get_tid (mem k) tbx name True" by (simp add: r_def mk)
    have "load_names mem meta l_nm (p + (length name + 1)) (Suc k) (fst r)
          = Some (fst (add_names (fst r) (block_names meta l_nm (p + (length name + 1)))))"
      using nonneg
      by (intro "1.IH" [OF True name_def r' _ "1.prems"(1) tag' h(1) len']) simp
    moreover have "load_names mem meta l_nm p k tbx
          = load_names mem meta l_nm (p + (length name + 1)) (Suc k) (fst r)"
      using True nonneg
      by (subst load_names.simps) (simp add: Let_def name_def r_def mk)
    ultimately show ?thesis by (simp add: Let_def r_def bn)
  qed
qed

text \<open>
  C5 as stated fails for a names block that repeats a name: the names \<^verbatim>\<open>a\<close>, \<^verbatim>\<open>a\<close>, \<^verbatim>\<open>b\<close> load
  with \<^verbatim>\<open>b\<close> at position 2 of the block and id 1.
\<close>

theorem repeated_name_counterexample:
  "index_load (\<lambda>_. No_oom) (meta_block [2, 1, 2, 0, 35, 0] (''a'' @ [NUL] @ ''a'' @ [NUL] @ ''b'' @ [NUL])) 34
     \<noteq> None
   \<and> block_names (meta_block [2, 1, 2, 0, 35, 0] (''a'' @ [NUL] @ ''a'' @ [NUL] @ ''b'' @ [NUL])) 6 0 ! 2 = ''b''
   \<and> snd (tbx_name2id No_oom
        (the (index_load (\<lambda>_. No_oom)
           (meta_block [2, 1, 2, 0, 35, 0] (''a'' @ [NUL] @ ''a'' @ [NUL] @ ''b'' @ [NUL])) 34)) ''b'') = 1"
  by code_simp

text \<open>
  C5 (amended): for every preset but GAF, as long as no allocation fails and the names
  added are at most \<open>2^31\<close> distinct ones (an id is an \<^verbatim>\<open>int\<close>), the dictionary assigns ids in
  the order of insertion: adding a list of names to an empty dictionary gives the \<open>k\<close>-th
  distinct name (in the order of first occurrence, counting from 0) the id \<open>k\<close>, on the call
  that adds it and on every later call with that name, and a later lookup
  (\<^verbatim>\<open>tbx_name2id\<close>) returns the same id. Loading an index interns the names of the names block
  in their order, so a name's id is its position among the distinct names of the block: its
  position in the block when no name is repeated.
\<close>

theorem dictionary_ids:
  "(preset_tag (tbx_conf tbx) \<noteq> TBX_GAF \<and> tbx_dict tbx = None
      \<and> length (first_seen [] names) \<le> 2 ^ 31
      \<longrightarrow> ids_in_order (fst (add_names tbx names)) (first_seen [] names)
          \<and> (\<forall>j k. j < length names \<and> k < length (first_seen [] names)
                   \<and> names ! j = first_seen [] names ! k
                \<longrightarrow> snd (add_names tbx names) ! j = int k))
   \<and> (preset_tag (meta_conf meta) \<noteq> TBX_GAF \<and> (\<forall>k. mem k = No_oom)
        \<and> 28 \<le> l_meta \<and> le_to_u32 meta 24 \<le> l_meta - 28
        \<and> length (first_seen [] (block_names meta (le_to_u32 meta 24) 0)) \<le> 2 ^ 31
      \<longrightarrow> (\<exists>tbx'. index_load mem meta l_meta = Some tbx'
             \<and> ids_in_order tbx' (first_seen [] (block_names meta (le_to_u32 meta 24) 0))))
   \<and> (distinct names \<longrightarrow> first_seen [] names = names)"
proof (intro conjI impI)
  assume a: "preset_tag (tbx_conf tbx) \<noteq> TBX_GAF \<and> tbx_dict tbx = None
      \<and> length (first_seen [] names) \<le> 2 ^ 31"
  then have h: "dict_holds tbx []" by (simp add: dict_holds_def)
  have len: "length (first_seen [] names) \<le> 2 ^ 31" using a by simp
  note r = add_names_holds [OF _ h len]
  show "ids_in_order (fst (add_names tbx names)) (first_seen [] names)"
    using r a by (intro dict_holds_ids) simp_all
  show "\<forall>j k. j < length names \<and> k < length (first_seen [] names)
                   \<and> names ! j = first_seen [] names ! k
                \<longrightarrow> snd (add_names tbx names) ! j = int k"
    using r a by blast
next
  assume a: "preset_tag (meta_conf meta) \<noteq> TBX_GAF \<and> (\<forall>k. mem k = No_oom)
        \<and> 28 \<le> l_meta \<and> le_to_u32 meta 24 \<le> l_meta - 28
        \<and> length (first_seen [] (block_names meta (le_to_u32 meta 24) 0)) \<le> 2 ^ 31"
  define l_nm where "l_nm = le_to_u32 meta 24"
  define tbx0 where "tbx0 = \<lparr>tbx_conf = meta_conf meta, tbx_dict = None\<rparr>"
  define ns where "ns = block_names meta l_nm 0"
  have h: "dict_holds tbx0 []" by (simp add: dict_holds_def tbx0_def)
  have tag: "preset_tag (tbx_conf tbx0) \<noteq> TBX_GAF" using a by (simp add: tbx0_def)
  have len: "length (first_seen [] ns) \<le> 2 ^ 31" using a by (simp add: ns_def l_nm_def)
  have "load_names mem meta l_nm 0 0 tbx0 = Some (fst (add_names tbx0 ns))"
    unfolding ns_def using a len by (intro load_names_add [OF _ tag h]) (simp_all add: ns_def)
  then have load: "index_load mem meta l_meta = Some (fst (add_names tbx0 ns))"
    using a by (simp add: index_load_def Let_def l_nm_def tbx0_def)
  note r = add_names_holds [OF tag h len]
  have "ids_in_order (fst (add_names tbx0 ns)) (first_seen [] ns)"
    using r tag len by (intro dict_holds_ids) simp_all
  with load show "\<exists>tbx'. index_load mem meta l_meta = Some tbx'
             \<and> ids_in_order tbx' (first_seen [] (block_names meta (le_to_u32 meta 24) 0))"
    by (simp add: ns_def l_nm_def)
next
  assume "distinct names"
  then show "first_seen [] names = names"
    using first_seen_distinct [of "[]" names] by simp
qed

theorem dictionary_ids_witness:
  "ids_in_order (fst (add_names \<lparr>tbx_conf = tbx_conf_vcf, tbx_dict = None\<rparr> [''a'', ''b'', ''a'', ''c'']))
     [''a'', ''b'', ''c'']
   \<and> snd (add_names \<lparr>tbx_conf = tbx_conf_vcf, tbx_dict = None\<rparr> [''a'', ''b'', ''a'', ''c'']) ! 3 = 2
   \<and> index_load (\<lambda>_. No_oom) (meta_block [2, 1, 2, 0, 35, 0] (''a'' @ [NUL] @ ''b'' @ [NUL])) 32 \<noteq> None
   \<and> ids_in_order (the (index_load (\<lambda>_. No_oom)
        (meta_block [2, 1, 2, 0, 35, 0] (''a'' @ [NUL] @ ''b'' @ [NUL])) 32)) [''a'', ''b'']"
proof -
  define tbx where "tbx = \<lparr>tbx_conf = tbx_conf_vcf, tbx_dict = None\<rparr>"
  define names where "names = [''a'', ''b'', ''a'', ''c'']"
  define meta where "meta = meta_block [2, 1, 2, 0, 35, 0] (''a'' @ [NUL] @ ''b'' @ [NUL])"
  define mem :: "nat \<Rightarrow> oom" where "mem = (\<lambda>_. No_oom)"
  have fs: "first_seen [] names = [''a'', ''b'', ''c'']" unfolding names_def by code_simp
  have bn: "first_seen [] (block_names meta (le_to_u32 meta 24) 0) = [''a'', ''b'']"
    unfolding meta_def by code_simp
  have h1: "preset_tag (tbx_conf tbx) \<noteq> TBX_GAF \<and> tbx_dict tbx = None
      \<and> length (first_seen [] names) \<le> 2 ^ 31"
    unfolding fs tbx_def by (simp add: tbx_conf_vcf_def preset_tag_def TBX_VCF_def TBX_GAF_def)
  have tag: "preset_tag (meta_conf meta) \<noteq> TBX_GAF" unfolding meta_def by code_simp
  have lnm: "le_to_u32 meta 24 = 4" unfolding meta_def by code_simp
  have h2: "preset_tag (meta_conf meta) \<noteq> TBX_GAF \<and> (\<forall>k. mem k = No_oom)
        \<and> 28 \<le> (32::nat) \<and> le_to_u32 meta 24 \<le> 32 - 28
        \<and> length (first_seen [] (block_names meta (le_to_u32 meta 24) 0)) \<le> 2 ^ 31"
    unfolding bn using tag by (simp add: lnm mem_def)
  note inst = dictionary_ids [of tbx names meta mem 32]
  have a: "ids_in_order (fst (add_names tbx names)) [''a'', ''b'', ''c'']"
    using inst h1 by (simp add: fs)
  have "(3::nat) < length names \<and> (2::nat) < length (first_seen [] names)
        \<and> names ! 3 = first_seen [] names ! 2"
    unfolding fs by (simp add: names_def)
  then have b: "snd (add_names tbx names) ! 3 = 2"
    using inst h1 by (metis of_nat_numeral)
  obtain tbx' where t: "index_load mem meta 32 = Some tbx'" "ids_in_order tbx' [''a'', ''b'']"
    using inst h2 by (auto simp: bn)
  from a b t show ?thesis
    by (simp add: tbx_def names_def meta_def mem_def)
qed


section \<open>C10: what a successful parse guarantees\<close>

text \<open>
  What holds of the code: if \<^verbatim>\<open>tbx_parse1\<close> returns 0 then the name slice is set, \<open>ss\<close> and
  \<open>se\<close> point into the line with \<open>ss \<le> se\<close>, and begin and end are not negative. A line of
  tab-separated fields with no field at the sequence column returns \<open>-1\<close>; so does a line with
  no field at the begin column, and, for every preset but GAF, one where \<^verbatim>\<open>strtoll\<close> converts
  nothing from the start of the begin column on.
\<close>

lemma tbx_parse1_success_requires:
  "(tbx_parse1 svl conf len (init_state ln stack rep ws) = (0, st) \<longrightarrow>
      (\<exists>b e. intv_ss st = Some b \<and> intv_se st = Some e \<and> b \<le> e \<and> e \<le> len)
      \<and> 0 \<le> intv_beg st \<and> 0 \<le> intv_end st)
   \<and> ((\<forall>f \<in> set fs. plain_field f) \<and> fs \<noteq> [] \<and> (sc conf < 1 \<or> int (length fs) < sc conf)
        \<longrightarrow> fst (parse_line svl conf stack rep ws (tsv fs)) = - 1)
   \<and> ((\<forall>f \<in> set fs. plain_field f) \<and> fs \<noteq> [] \<and> (bc conf < 1 \<or> int (length fs) < bc conf)
        \<longrightarrow> fst (parse_line svl conf stack rep ws (tsv fs)) = - 1)
   \<and> ((\<forall>f \<in> set fs. plain_field f) \<and> fs \<noteq> [] \<and> preset_tag conf \<noteq> TBX_GAF
       \<and> snd (strtoll 0 (join_with TAB (drop (nat (bc conf) - 1) fs) @ [NUL])) = 0
        \<longrightarrow> fst (parse_line svl conf stack rep ws (tsv fs)) = - 1)"
proof (intro conjI impI)
  assume a: "tbx_parse1 svl conf len (init_state ln stack rep ws) = (0, st)"
  show "\<exists>b e. intv_ss st = Some b \<and> intv_se st = Some e \<and> b \<le> e \<and> e \<le> len"
    using tbx_parse1_slice [OF a] .
  show "0 \<le> intv_beg st" "0 \<le> intv_end st"
    using tbx_parse1_success [OF a] by simp_all
next
  assume "(\<forall>f \<in> set fs. plain_field f) \<and> fs \<noteq> [] \<and> (sc conf < 1 \<or> int (length fs) < sc conf)"
  then show "fst (parse_line svl conf stack rep ws (tsv fs)) = - 1"
    using parse_line_no_name [of fs conf svl stack rep ws] by simp
next
  assume "(\<forall>f \<in> set fs. plain_field f) \<and> fs \<noteq> [] \<and> (bc conf < 1 \<or> int (length fs) < bc conf)"
  then show "fst (parse_line svl conf stack rep ws (tsv fs)) = - 1"
    using parse_line_no_begin_field [of fs conf svl stack rep ws] by blast
next
  assume "(\<forall>f \<in> set fs. plain_field f) \<and> fs \<noteq> [] \<and> preset_tag conf \<noteq> TBX_GAF
       \<and> snd (strtoll 0 (join_with TAB (drop (nat (bc conf) - 1) fs) @ [NUL])) = 0"
  then show "fst (parse_line svl conf stack rep ws (tsv fs)) = - 1"
    using parse_line_no_begin [of fs conf svl stack rep ws] by blast
qed

text \<open>
  C10: the code fails the last part of the claim. With the VCF configuration the line
  \<^verbatim>\<open>chr1<TAB><TAB>100\<close> has an empty begin column, yet it parses, with begin 99: \<^verbatim>\<open>strtoll\<close>
  skips the tab and reads the next column, so the test \<^verbatim>\<open>s==line+b\<close> of line 192 does not
  see that the begin column holds no integer. The GAF branch has no such test: the path
  \<^verbatim>\<open>>x\<close> holds no integer and the line parses, with begin and end 0.
\<close>

theorem begin_without_integer_accepted:
  "fst (parse_line symbolic_alt tbx_conf_vcf (\<lambda>_. 0) False []
       (tsv [''chr1'', '''', ''100''])) = 0
   \<and> intv_beg (snd (parse_line symbolic_alt tbx_conf_vcf (\<lambda>_. 0) False []
       (tsv [''chr1'', '''', ''100'']))) = 99
   \<and> fst (parse_line symbolic_alt tbx_conf_gaf (\<lambda>_. 0) False []
       (tsv [''r1'', ''5'', ''0'', ''5'', ''+'', ''>x'', ''9''])) = 0
   \<and> intv_beg (snd (parse_line symbolic_alt tbx_conf_gaf (\<lambda>_. 0) False []
       (tsv [''r1'', ''5'', ''0'', ''5'', ''+'', ''>x'', ''9'']))) = 0"
  by code_simp


section \<open>C6: the node ids of a GAF line\<close>

text \<open>
  C6 as stated fails: the node ids are read with base 0, not base 10. The path
  \<^verbatim>\<open>>010<020\<close> gives begin 8 and end 16, the octal values, where base 10 reads 10 and 20.
\<close>

theorem gaf_octal_counterexample:
  "gaf_path [(CHR ''>'', ''010''), (CHR ''<'', ''020'')] = ''>010<020''
   \<and> node_ids 10 [(CHR ''>'', ''010''), (CHR ''<'', ''020'')] = [10, 20]
   \<and> fst (parse_line symbolic_alt tbx_conf_gaf (\<lambda>_. 0) False []
        (tsv [''r1'', ''5'', ''0'', ''5'', ''+'', ''>010<020'', ''9''])) = 0
   \<and> intv_beg (snd (parse_line symbolic_alt tbx_conf_gaf (\<lambda>_. 0) False []
        (tsv [''r1'', ''5'', ''0'', ''5'', ''+'', ''>010<020'', ''9'']))) = 8
   \<and> intv_end (snd (parse_line symbolic_alt tbx_conf_gaf (\<lambda>_. 0) False []
        (tsv [''r1'', ''5'', ''0'', ''5'', ''+'', ''>010<020'', ''9'']))) = 16"
  by code_simp

text \<open>
  C6 (amended): for a GAF-preset line whose begin column is a path, each step \<^verbatim>\<open>>\<close> or
  \<^verbatim>\<open><\<close> followed by a node id that \<^verbatim>\<open>strtoll\<close> with base 0 reads whole, \<^verbatim>\<open>tbx_parse1\<close> reads
  the node ids with base 0 (so an id that does not start with \<^verbatim>\<open>0\<close> is read in base 10,
  and one that starts with \<^verbatim>\<open>0\<close> or \<^verbatim>\<open>0x\<close> as octal or hexadecimal), sets begin to the least
  and end to the greatest of them, and returns 0 when the line has the sequence column; the
  id of the reference is the constant 0, from \<^verbatim>\<open>get_tid\<close> and from \<^verbatim>\<open>get_intv\<close>.
\<close>

theorem gaf_node_ids:
  assumes "preset_tag conf = TBX_GAF"
    and "\<forall>f \<in> set fs. plain_field f"
    and "1 \<le> bc conf" "bc conf \<le> int (length fs)" "sc conf \<noteq> bc conf"
    and "fs ! (nat (bc conf) - 1) = gaf_path steps" "steps \<noteq> []" "list_all gaf_step steps"
  shows "intv_beg (snd (parse_line svl conf stack rep ws (tsv fs))) = Min (set (node_ids 0 steps))
       \<and> intv_end (snd (parse_line svl conf stack rep ws (tsv fs))) = Max (set (node_ids 0 steps))
       \<and> (list_all (\<lambda>(c, d). hd d \<noteq> CHR ''0'') steps \<longrightarrow> node_ids 0 steps = node_ids 10 steps)
       \<and> (1 \<le> sc conf \<and> sc conf \<le> int (length fs)
            \<longrightarrow> fst (parse_line svl conf stack rep ws (tsv fs)) = 0
              \<and> snd (snd (snd (get_intv svl mem \<lparr>tbx_conf = conf, tbx_dict = dict\<rparr> (tsv fs)
                                  stack rep ws is_add))) = Some 0)
       \<and> snd (get_tid mem \<lparr>tbx_conf = conf, tbx_dict = dict\<rparr> name is_add) = 0"
proof (intro conjI impI)
  show "intv_beg (snd (parse_line svl conf stack rep ws (tsv fs))) = Min (set (node_ids 0 steps))"
    by (rule parse_line_gaf(1) [OF assms])
  show "intv_end (snd (parse_line svl conf stack rep ws (tsv fs))) = Max (set (node_ids 0 steps))"
    by (rule parse_line_gaf(2) [OF assms])
  show "snd (get_tid mem \<lparr>tbx_conf = conf, tbx_dict = dict\<rparr> name is_add) = 0"
    using assms(1) by (simp add: get_tid_def)
next
  assume "list_all (\<lambda>(c, d). hd d \<noteq> CHR ''0'') steps"
  then show "node_ids 0 steps = node_ids 10 steps"
    using assms(8) by (intro node_ids_base10)
next
  assume sc: "1 \<le> sc conf \<and> sc conf \<le> int (length fs)"
  show ok: "fst (parse_line svl conf stack rep ws (tsv fs)) = 0"
    using parse_line_gaf(3) [OF assms sc] .
  then show "snd (snd (snd (get_intv svl mem \<lparr>tbx_conf = conf, tbx_dict = dict\<rparr> (tsv fs)
                                  stack rep ws is_add))) = Some 0"
    using assms(1) by (simp add: get_intv_def parse_line_def Let_def)
qed

theorem gaf_node_ids_witness:
  "preset_tag tbx_conf_gaf = TBX_GAF
   \<and> gaf_path [(CHR ''>'', ''12''), (CHR ''<'', ''34''), (CHR ''>'', ''5'')] = ''>12<34>5''
   \<and> list_all gaf_step [(CHR ''>'', ''12''), (CHR ''<'', ''34''), (CHR ''>'', ''5'')]
   \<and> fst (parse_line symbolic_alt tbx_conf_gaf (\<lambda>_. 0) False []
        (tsv [''r1'', ''5'', ''0'', ''5'', ''+'', ''>12<34>5'', ''9''])) = 0
   \<and> intv_beg (snd (parse_line symbolic_alt tbx_conf_gaf (\<lambda>_. 0) False []
        (tsv [''r1'', ''5'', ''0'', ''5'', ''+'', ''>12<34>5'', ''9'']))) = 5
   \<and> intv_end (snd (parse_line symbolic_alt tbx_conf_gaf (\<lambda>_. 0) False []
        (tsv [''r1'', ''5'', ''0'', ''5'', ''+'', ''>12<34>5'', ''9'']))) = 34
   \<and> node_ids 10 [(CHR ''>'', ''12''), (CHR ''<'', ''34''), (CHR ''>'', ''5'')] = [12, 34, 5]
   \<and> snd (get_tid No_oom \<lparr>tbx_conf = tbx_conf_gaf, tbx_dict = None\<rparr> ''r1'' True) = 0"
proof -
  define fs where "fs = [''r1'', ''5'', ''0'', ''5'', ''+'', ''>12<34>5'', ''9'']"
  define steps where "steps = [(CHR ''>'', ''12''), (CHR ''<'', ''34''), (CHR ''>'', ''5'')]"
  have tag: "preset_tag tbx_conf_gaf = TBX_GAF" by code_simp
  have plain: "\<forall>f \<in> set fs. plain_field f" unfolding fs_def by code_simp
  have cols: "1 \<le> bc tbx_conf_gaf" "bc tbx_conf_gaf \<le> int (length fs)"
    "sc tbx_conf_gaf \<noteq> bc tbx_conf_gaf" "1 \<le> sc tbx_conf_gaf \<and> sc tbx_conf_gaf \<le> int (length fs)"
    unfolding fs_def by (simp_all add: tbx_conf_gaf_def)
  have gp: "gaf_path steps = ''>12<34>5''" unfolding steps_def by code_simp
  have path: "fs ! (nat (bc tbx_conf_gaf) - 1) = gaf_path steps"
    unfolding gp by (simp add: fs_def tbx_conf_gaf_def)
  have ne: "steps \<noteq> []" by (simp add: steps_def)
  have st: "list_all gaf_step steps" unfolding steps_def by code_simp
  have ids: "node_ids 0 steps = [12, 34, 5]" unfolding steps_def by code_simp
  note inst = gaf_node_ids [where svl = symbolic_alt and stack = "\<lambda>_. 0" and rep = False
      and ws = "[]" and mem = No_oom and dict = None and name = "''r1''" and is_add = True,
      OF tag plain cols(1-3) path ne st]
  have "intv_beg (snd (parse_line symbolic_alt tbx_conf_gaf (\<lambda>_. 0) False [] (tsv fs))) = 5"
    "intv_end (snd (parse_line symbolic_alt tbx_conf_gaf (\<lambda>_. 0) False [] (tsv fs))) = 34"
    "fst (parse_line symbolic_alt tbx_conf_gaf (\<lambda>_. 0) False [] (tsv fs)) = 0"
    "snd (get_tid No_oom \<lparr>tbx_conf = tbx_conf_gaf, tbx_dict = None\<rparr> ''r1'' True) = 0"
    using inst cols(4) by (simp_all add: ids)
  moreover have "list_all (\<lambda>(c, d). hd d \<noteq> CHR ''0'') steps" unfolding steps_def by code_simp
  then have "node_ids 10 steps = [12, 34, 5]"
    using inst by (simp add: ids)
  ultimately show ?thesis using tag gp st by (simp add: fs_def steps_def)
qed


subsection \<open>The loop over the ALT column is a loop over its alleles\<close>

lemma strchr_stop:
  "c \<notin> set a \<Longrightarrow> NUL \<notin> set a \<Longrightarrow> x = c \<or> x = NUL
   \<Longrightarrow> strchr (a @ x # rest) c = (if x = c then Some (length a) else None)"
  by (induction a) auto

lemma cstr_stop: "NUL \<notin> set a \<Longrightarrow> cstr (a @ NUL # rest) = a"
  by (induction a) (auto simp: cstr_def)

lemma alt_examine_line:
  "alt_examine svl a lb (st\<lparr>line := X\<rparr>) = (alt_examine svl a lb st)\<lparr>line := X\<rparr>"
  by (simp add: alt_examine_def)

lemma alt_allele_line: "line (snd (alt_allele svl a lb st)) = line st"
  by (simp add: alt_allele_def Let_def alt_examine_frame)

lemma alt_step_allele:
  assumes "drop s (line st) = a @ c # rest" "CHR '','' \<notin> set a" "NUL \<notin> set a"
    and "c = CHR '','' \<or> c = NUL"
  shows "alt_step svl s lb st
       = (if c = CHR '','' then Some (s + length a) else None, alt_allele svl a lb st)"
proof -
  have nz: "CHR '','' \<noteq> NUL" by (simp add: NUL_def)
  have t: "c_strchr (line st) s (CHR '','') = (if c = CHR '','' then Some (s + length a) else None)"
    using strchr_stop [OF assms(2,3), of c rest] assms(4) nz
    by (auto simp: c_strchr_def assms(1))
  show ?thesis
  proof (cases "c = CHR '',''")
    case False
    then have c: "c = NUL" using assms(4) by simp
    have "cstr (drop s (line st)) = a"
      using cstr_stop [OF assms(3)] by (simp add: assms(1) c)
    then show ?thesis
      using False t by (simp add: alt_step_def alt_allele_def Let_def)
  next
    case True
    define k where "k = s + length a"
    have len: "k < length (line st)"
    proof -
      have "length (drop s (line st)) = length a + 1 + length rest" by (simp add: assms(1))
      then show ?thesis by (simp add: k_def)
    qed
    have nth: "line st ! k = CHR '',''"
    proof -
      have "line st ! (s + length a) = drop s (line st) ! length a"
        using len by (simp add: k_def)
      then show ?thesis by (simp add: assms(1) True k_def)
    qed
    have "drop s ((line st)[k := NUL]) = (drop s (line st))[length a := NUL]"
      by (simp add: k_def drop_update_swap)
    then have "drop s ((line st)[k := NUL]) = a @ NUL # rest"
      by (simp add: assms(1) list_update_append)
    then have a: "cstr (drop s ((line st)[k := NUL])) = a"
      using cstr_stop [OF assms(3)] by simp
    have put: "((line st)[k := NUL])[k := CHR '',''] = line st"
      using nth by (metis list_update_id list_update_overwrite)
    have idl: "(line st)[k := CHR '',''] = line st"
      using nth by (metis list_update_id)
    have own: "Y\<lparr>line := line st\<rparr> = Y" if "line Y = line st" for Y :: parse_state
      using that by (metis parse_state.update_convs(1) parse_state.surjective
          parse_state.select_convs(1))
    have "alt_step svl s lb st = (Some k, alt_allele svl a lb st)"
      using t True
      by (simp add: alt_step_def alt_allele_def Let_def k_def [symmetric] a alt_examine_line
          alt_examine_frame put idl own)
    then show ?thesis using True by (simp add: k_def)
  qed
qed

lemma alt_loop_alleles:
  assumes "drop s (line st) = join_with (CHR '','') as @ NUL # rest" "as \<noteq> []"
    and "\<forall>a \<in> set as. CHR '','' \<notin> set a \<and> NUL \<notin> set a"
  shows "alt_loop svl s lb st = alt_alleles svl as lb st"
  using assms
proof (induction as arbitrary: s lb st)
  case Nil
  then show ?case by simp
next
  case (Cons a as)
  show ?case
  proof (cases "as = []")
    case True
    have "alt_step svl s lb st = (None, alt_allele svl a lb st)"
      using alt_step_allele [of s st a NUL rest svl lb] Cons.prems(1,3)
      by (simp add: True NUL_def)
    then show ?thesis
      by (subst alt_loop.simps) (simp add: True Let_def split: prod.splits)
  next
    case False
    have dr: "drop s (line st) = a @ CHR '','' # (join_with (CHR '','') as @ NUL # rest)"
      using Cons.prems(1) False by (simp add: join_with_Cons)
    have step: "alt_step svl s lb st = (Some (s + length a), alt_allele svl a lb st)"
      using alt_step_allele [OF dr, of svl lb] Cons.prems(3) by simp
    obtain lb' st' where r: "alt_allele svl a lb st = (lb', st')" by (cases "alt_allele svl a lb st")
    have ln: "line st' = line st" using alt_allele_line [of svl a lb st] by (simp add: r)
    have "drop (Suc (s + length a)) (line st) = drop (Suc (length a)) (drop s (line st))"
      by (simp add: add.commute)
    then have dr2: "drop (Suc (s + length a)) (line st') = join_with (CHR '','') as @ NUL # rest"
      by (simp add: dr ln)
    have IH: "alt_loop svl (Suc (s + length a)) lb' st' = alt_alleles svl as lb' st'"
      using Cons.prems(3) by (intro Cons.IH [OF dr2 False]) simp
    show ?thesis
      by (subst alt_loop.simps) (simp add: step r IH False Let_def)
  qed
qed

lemma alt_alleles_line_update:
  "alt_alleles svl as lb (st\<lparr>line := X\<rparr>) = (alt_alleles svl as lb st)\<lparr>line := X\<rparr>"
proof (induction as arbitrary: lb st)
  case Nil
  then show ?case by simp
next
  case (Cons a as)
  have "alt_allele svl a lb (st\<lparr>line := X\<rparr>)
      = (fst (alt_allele svl a lb st), (snd (alt_allele svl a lb st))\<lparr>line := X\<rparr>)"
    by (simp add: alt_allele_def Let_def alt_examine_def)
  then show ?case by (simp add: Let_def Cons.IH)
qed

lemma alt_alleles_line: "line (alt_alleles svl as lb st) = line st"
  by (induction as arbitrary: lb st) (simp_all add: Let_def alt_allele_line)

text \<open>The ALT column of a line: the field \<open>join_with (CHR '','') as\<close> ends at \<open>i\<close>.\<close>

lemma alt_column_alleles:
  assumes "drop (field_b st) (line st) = join_with (CHR '','') as @ c # rest" "as \<noteq> []"
    and "\<forall>a \<in> set as. CHR '','' \<notin> set a \<and> NUL \<notin> set a"
    and "i = field_b st + length (join_with (CHR '','') as)"
  shows "alt_column svl i st = alt_alleles svl as 0 (st\<lparr>svlenals := (svlenals st)(0 := 0)\<rparr>)"
proof -
  define f where "f = join_with (CHR '','') as"
  define st1 where "st1 = st\<lparr>svlenals := (svlenals st)(0 := 0)\<rparr>"
  have len: "i < length (line st)"
  proof -
    have "length (drop (field_b st) (line st)) = length f + 1 + length rest"
      by (simp add: assms(1) f_def)
    then show ?thesis by (simp add: assms(4) f_def)
  qed
  have c: "line st ! i = c"
  proof -
    have "line st ! (field_b st + length f) = drop (field_b st) (line st) ! length f"
      using len by (simp add: assms(4) f_def)
    then show ?thesis by (simp add: assms(1,4) f_def)
  qed
  have "drop (field_b st) ((line st)[i := NUL]) = (drop (field_b st) (line st))[length f := NUL]"
    by (simp add: assms(4) f_def drop_update_swap)
  then have dr: "drop (field_b st) ((line st)[i := NUL]) = f @ NUL # rest"
    by (simp add: assms(1) f_def list_update_append)
  have "alt_loop svl (field_b st) 0 (st1\<lparr>line := (line st)[i := NUL]\<rparr>)
        = alt_alleles svl as 0 (st1\<lparr>line := (line st)[i := NUL]\<rparr>)"
    using dr assms(2,3) by (intro alt_loop_alleles [where rest = rest]) (simp_all add: f_def st1_def)
  also have "\<dots> = (alt_alleles svl as 0 st1)\<lparr>line := (line st)[i := NUL]\<rparr>"
    by (rule alt_alleles_line_update)
  finally have loop: "alt_loop svl (field_b st) 0 (st1\<lparr>line := (line st)[i := NUL]\<rparr>)
        = (alt_alleles svl as 0 st1)\<lparr>line := (line st)[i := NUL]\<rparr>" .
  have put: "((line st)[i := NUL])[i := c] = line st"
    using c by (metis list_update_id list_update_overwrite)
  have "line (alt_alleles svl as 0 st1) = line st"
    by (simp add: alt_alleles_line st1_def)
  then have "(alt_alleles svl as 0 st1)\<lparr>line := line st\<rparr> = alt_alleles svl as 0 st1"
    by (metis parse_state.update_convs(1) parse_state.surjective parse_state.select_convs(1))
  then show ?thesis
    using loop c put by (simp add: alt_column_def Let_def st1_def)
qed

subsection \<open>How many alleles are examined\<close>

lemma alt_allele_alcnt: "alcnt (snd (alt_allele svl a lb st)) = alcnt st + 1"
  by (simp add: alt_allele_def Let_def alt_examine_alcnt)

lemma alt_allele_flags:
  "use_svlen (snd (alt_allele svl a lb st)) = (use_svlen st \<or> svl a)"
  "getlen (snd (alt_allele svl a lb st)) = (getlen st \<or> gvcf_allele svl a)"
  by (auto simp: alt_allele_def Let_def alt_examine_def gvcf_allele_def)

lemma alt_alleles_take:
  "nat (65536 - alcnt st) \<le> m \<Longrightarrow> 1 \<le> m
   \<Longrightarrow> alt_alleles svl (take m as) lb st = alt_alleles svl as lb st"
proof (induction as arbitrary: m lb st)
  case Nil
  then show ?case by simp
next
  case (Cons a as)
  obtain m' where m: "m = Suc m'" using Cons.prems(2) by (cases m) auto
  define r where "r = alt_allele svl a lb st"
  have al: "alcnt (snd r) = alcnt st + 1" by (simp add: r_def alt_allele_alcnt)
  show ?case
  proof (cases "as \<noteq> [] \<and> alcnt (snd r) < 65536")
    case True
    then have "2 \<le> 65536 - alcnt st" using al by simp
    then have "2 \<le> nat (65536 - alcnt st)" by linarith
    then have m1: "nat (65536 - alcnt (snd r)) \<le> m'" "1 \<le> m'"
      using Cons.prems(1) al by (simp_all add: m)
    have "take m' as \<noteq> []" using True m1(2) by (cases as; cases m') auto
    then show ?thesis
      using True Cons.IH [OF m1] by (simp add: m Let_def r_def [symmetric])
  next
    case False
    then have "take m' as = [] \<or> \<not> alcnt (snd r) < 65536" by auto
    then show ?thesis
      using False by (auto simp: m Let_def r_def [symmetric])
  qed
qed

lemma alt_alleles_all:
  "as \<noteq> [] \<Longrightarrow> alcnt st + int (length as) \<le> 65536
   \<Longrightarrow> alcnt (alt_alleles svl as lb st) = alcnt st + int (length as)
     \<and> use_svlen (alt_alleles svl as lb st) = (use_svlen st \<or> (\<exists>a \<in> set as. svl a))
     \<and> getlen (alt_alleles svl as lb st) = (getlen st \<or> (\<exists>a \<in> set as. gvcf_allele svl a))"
proof (induction as arbitrary: lb st)
  case Nil
  then show ?case by simp
next
  case (Cons a as)
  define r where "r = alt_allele svl a lb st"
  have al: "alcnt (snd r) = alcnt st + 1" by (simp add: r_def alt_allele_alcnt)
  note fl = alt_allele_flags [of svl a lb st, folded r_def]
  show ?case
  proof (cases "as = []")
    case True
    then show ?thesis using al fl by (simp add: Let_def r_def [symmetric])
  next
    case False
    then have lt: "alcnt (snd r) < 65536" using Cons.prems(2) al by (cases as) auto
    have "alcnt (snd r) + int (length as) \<le> 65536" using Cons.prems(2) al by simp
    from Cons.IH [OF False this, of "fst r"] show ?thesis
      using False lt al fl by (auto simp: Let_def r_def [symmetric])
  qed
qed

text \<open>
  With the count at \<open>n\<close> on entry, the loop examines the first \<open>65536 - n\<close> alleles and no
  more.
\<close>

lemma alt_alleles_limit:
  assumes "as \<noteq> []" "0 \<le> alcnt st" "alcnt st < 65536"
  shows "alcnt (alt_alleles svl as lb st)
         = alcnt st + int (min (length as) (nat (65536 - alcnt st)))"
    and "use_svlen (alt_alleles svl as lb st)
         = (use_svlen st \<or> (\<exists>a \<in> set (take (nat (65536 - alcnt st)) as). svl a))"
    and "getlen (alt_alleles svl as lb st)
         = (getlen st \<or> (\<exists>a \<in> set (take (nat (65536 - alcnt st)) as). gvcf_allele svl a))"
    and "alt_alleles svl as lb st = alt_alleles svl (take (nat (65536 - alcnt st)) as) lb st"
proof -
  define m where "m = nat (65536 - alcnt st)"
  have m: "1 \<le> m" using assms(2,3) by (simp add: m_def)
  have eq: "alt_alleles svl (take m as) lb st = alt_alleles svl as lb st"
    using m by (intro alt_alleles_take) (simp_all add: m_def)
  have ne: "take m as \<noteq> []" using assms(1) m by (cases as; cases m) auto
  have "alcnt st + int (length (take m as)) \<le> 65536"
    using assms(2,3) by (simp add: m_def)
  from alt_alleles_all [OF ne this, of svl lb]
  show "alcnt (alt_alleles svl as lb st)
         = alcnt st + int (min (length as) (nat (65536 - alcnt st)))"
    and "use_svlen (alt_alleles svl as lb st)
         = (use_svlen st \<or> (\<exists>a \<in> set (take (nat (65536 - alcnt st)) as). svl a))"
    and "getlen (alt_alleles svl as lb st)
         = (getlen st \<or> (\<exists>a \<in> set (take (nat (65536 - alcnt st)) as). gvcf_allele svl a))"
    unfolding eq m_def [symmetric] by (simp_all add: min.commute)
  show "alt_alleles svl as lb st = alt_alleles svl (take (nat (65536 - alcnt st)) as) lb st"
    using eq by (simp add: m_def)
qed


subsection \<open>The allele count and the flags along a VCF line\<close>

lemma handle_field_flags:
  assumes "field_id st \<noteq> 5 \<or> field_id st = sc conf \<or> field_id st = bc conf
           \<or> preset_tag conf \<noteq> TBX_VCF"
  shows "use_svlen (flow_state (handle_field svl conf i st)) = use_svlen st"
    and "getlen (flow_state (handle_field svl conf i st)) = getlen st"
    and "alcnt (flow_state (handle_field svl conf i st))
         = (if preset_tag conf = TBX_VCF \<and> field_id st = 4 \<and> sc conf \<noteq> 4 \<and> bc conf \<noteq> 4
            then alcnt st + 1 else alcnt st)"
proof -
  have tags: "TBX_VCF \<noteq> TBX_GAF" "TBX_VCF \<noteq> TBX_GENERIC" "TBX_VCF \<noteq> TBX_SAM"
    by (simp_all add: TBX_VCF_def TBX_GAF_def TBX_GENERIC_def TBX_SAM_def)
  have other: "use_svlen (gaf_column i st) = use_svlen st" "getlen (gaf_column i st) = getlen st"
    "alcnt (gaf_column i st) = alcnt st"
    "use_svlen (flow_state (begin_column conf st)) = use_svlen st"
    "getlen (flow_state (begin_column conf st)) = getlen st"
    "alcnt (flow_state (begin_column conf st)) = alcnt st"
    "use_svlen (flow_state (end_column st)) = use_svlen st"
    "getlen (flow_state (end_column st)) = getlen st"
    "alcnt (flow_state (end_column st)) = alcnt st"
    "use_svlen (cigar_column i st) = use_svlen st" "getlen (cigar_column i st) = getlen st"
    "alcnt (cigar_column i st) = alcnt st"
    by (simp_all add: gaf_column_def begin_column_def end_column_def cigar_column_def Let_def)
  have ref: "alcnt (ref_column i st) = alcnt st + 1" by (simp add: ref_column_def Let_def)
  have vcf: "field_id st \<noteq> 5 \<Longrightarrow>
      use_svlen (flow_state (vcf_column svl i st)) = use_svlen st
    \<and> getlen (flow_state (vcf_column svl i st)) = getlen st
    \<and> alcnt (flow_state (vcf_column svl i st)) = (if field_id st = 4 then alcnt st + 1 else alcnt st)"
    by (simp add: vcf_column_def Let_def ref_column_frame ref info_column_frame
        format_column_frame sample_column_frame)
  show "use_svlen (flow_state (handle_field svl conf i st)) = use_svlen st"
    and "getlen (flow_state (handle_field svl conf i st)) = getlen st"
    and "alcnt (flow_state (handle_field svl conf i st))
         = (if preset_tag conf = TBX_VCF \<and> field_id st = 4 \<and> sc conf \<noteq> 4 \<and> bc conf \<noteq> 4
            then alcnt st + 1 else alcnt st)"
    using assms vcf by (auto simp: handle_field_def other tags)
qed

lemma handle_field_alt:
  "preset_tag conf = TBX_VCF \<Longrightarrow> field_id st = 5 \<Longrightarrow> sc conf \<noteq> 5 \<Longrightarrow> bc conf \<noteq> 5
   \<Longrightarrow> handle_field svl conf i st = Continue (alt_column svl i st)"
  by (simp add: handle_field_def vcf_column_def Let_def TBX_VCF_def TBX_GAF_def TBX_GENERIC_def
      TBX_SAM_def)

lemma handle_field_vcf_return:
  assumes "preset_tag conf = TBX_VCF" "handle_field svl conf i st = Return r st'"
  shows "field_id st = bc conf \<and> snd (strtoll 0 (drop (field_b st) (line st))) = 0"
proof -
  have tags: "TBX_VCF \<noteq> TBX_GAF" "TBX_VCF \<noteq> TBX_GENERIC" "TBX_VCF \<noteq> TBX_SAM"
    by (simp_all add: TBX_VCF_def TBX_GAF_def TBX_GENERIC_def TBX_SAM_def)
  have "vcf_column svl i st \<noteq> Return r st'"
    by (auto simp: vcf_column_def Let_def format_column_def)
  then have "field_id st = bc conf" "begin_column conf st = Return r st'"
    using assms by (auto simp: handle_field_def tags split: if_splits)
  then show ?thesis
    by (auto simp: begin_column_def Let_def split: if_splits)
qed

lemma handle_field_vcf_break:
  assumes "preset_tag conf = TBX_VCF" "handle_field svl conf i st = Break st'"
  shows "field_id st = 9"
proof -
  have tags: "TBX_VCF \<noteq> TBX_GAF" "TBX_VCF \<noteq> TBX_GENERIC" "TBX_VCF \<noteq> TBX_SAM"
    by (simp_all add: TBX_VCF_def TBX_GAF_def TBX_GENERIC_def TBX_SAM_def)
  have b: "begin_column conf st \<noteq> Break st'"
    by (auto simp: begin_column_def Let_def)
  have v: "field_id st = 9" if "vcf_column svl i st = Break st'"
  proof (cases "field_id st = 4")
    case True
    then show ?thesis using that by (simp add: vcf_column_def Let_def ref_column_frame)
  next
    case False
    then show ?thesis using that by (simp add: vcf_column_def Let_def split: if_splits)
  qed
  have "vcf_column svl i st = Break st'"
    using assms b by (simp add: handle_field_def tags split: if_splits)
  then show ?thesis by (rule v)
qed

lemma set_join_with: "a \<in> set as \<Longrightarrow> set a \<subseteq> set (join_with c as)"
  by (induction c as rule: join_with.induct) auto

text \<open>The rule for the loop over the fields with all three outcomes.\<close>

lemma fields_loop_outcome:
  assumes plain: "\<forall>f \<in> set fs. plain_field f"
    and init: "P k st" "k \<le> length fs" "field_id st = 1 + int k"
      "k < length fs \<longrightarrow> drop (field_b st) (line st) = join_with TAB (drop k fs) @ [NUL]"
    and step: "\<And>k st. P k st \<Longrightarrow> k < length fs \<Longrightarrow> field_id st = 1 + int k
        \<Longrightarrow> drop (field_b st) (line st) = join_with TAB (drop k fs) @ [NUL]
        \<Longrightarrow> (case handle_field svl conf (field_b st + length (fs ! k)) st of
              Continue st' \<Rightarrow> P (Suc k) (st'\<lparr>field_b := field_b st + length (fs ! k) + 1,
                                               field_id := field_id st' + 1\<rparr>)
            | Break st' \<Rightarrow> QB st'
            | Return r st' \<Rightarrow> QR st')"
  shows "case fields_loop svl conf (drop k fs) st of
           Continue st' \<Rightarrow> P (length fs) st' | Break st' \<Rightarrow> QB st'
         | Return r st' \<Rightarrow> r = - 1 \<and> QR st'"
  using init
proof (induction "length fs - k" arbitrary: k st)
  case 0
  then have "drop k fs = []" "k = length fs" by simp_all
  then show ?case using "0.prems"(1) by simp
next
  case (Suc d)
  then have k: "k < length fs" by simp
  then have dk: "drop k fs = fs ! k # drop (Suc k) fs" by (simp add: Cons_nth_drop_Suc)
  have dr: "drop (field_b st) (line st) = join_with TAB (drop k fs) @ [NUL]"
    using Suc.prems(4) k by simp
  have d: "d = length fs - Suc k" using Suc.hyps(2) by simp
  let ?i = "field_b st + length (fs ! k)"
  note s = step [OF Suc.prems(1) k Suc.prems(3) dr]
  show ?case
  proof (cases "handle_field svl conf ?i st")
    case (Continue st')
    let ?st2 = "st'\<lparr>field_b := ?i + 1, field_id := field_id st' + 1\<rparr>"
    have P2: "P (Suc k) ?st2" using s Continue by simp
    have ln: "line st' = line st" and fid: "field_id st' = field_id st"
      using handle_field_line [of svl conf ?i st] handle_field_frame(2) [of svl conf ?i st] Continue
      by simp_all
    have id2: "field_id ?st2 = 1 + int (Suc k)"
      using Suc.prems(3) by (simp add: fid)
    have dr2: "Suc k < length fs \<longrightarrow>
        drop (field_b ?st2) (line ?st2) = join_with TAB (drop (Suc k) fs) @ [NUL]"
    proof
      assume "Suc k < length fs"
      then have ne: "drop (Suc k) fs \<noteq> []" by simp
      have "drop (?i + 1) (line st) = drop (length (fs ! k) + 1) (drop (field_b st) (line st))"
        by (simp add: add.commute)
      also have "\<dots> = join_with TAB (drop (Suc k) fs) @ [NUL]"
        using ne by (simp add: dr dk join_with_Cons)
      finally show "drop (field_b ?st2) (line ?st2) = join_with TAB (drop (Suc k) fs) @ [NUL]"
        by (simp add: ln)
    qed
    have "case fields_loop svl conf (drop (Suc k) fs) ?st2 of
           Continue st' \<Rightarrow> P (length fs) st' | Break st' \<Rightarrow> QB st'
         | Return r st' \<Rightarrow> r = - 1 \<and> QR st'"
      using k by (intro Suc.hyps(1) [OF d P2 _ id2 dr2]) simp
    then show ?thesis using Continue by (simp add: dk)
  next
    case (Break st')
    then show ?thesis using s by (simp add: dk)
  next
    case (Return r st')
    then show ?thesis using s handle_field_return [OF Return] by (simp add: dk)
  qed
qed

text \<open>
  \<open>alt_seen\<close>: what the count and the flags are once the ALT column, with the alleles \<open>as\<close>, has
  been scanned with the count at \<open>n\<close> on entry.
\<close>

lemma vcf_alt_outcome:
  assumes tag: "preset_tag conf = TBX_VCF"
    and plain: "\<forall>f \<in> set fs. plain_field f"
    and cols: "5 \<le> length fs" "sc conf \<noteq> 5" "bc conf \<noteq> 5"
    and alt: "fs ! 4 = join_with (CHR '','') as" "as \<noteq> []" "\<forall>a \<in> set as. CHR '','' \<notin> set a"
    and reached: "fst (parse_line svl conf stack rep ws (tsv fs)) = 0
       \<or> 5 < field_id (snd (parse_line svl conf stack rep ws (tsv fs)))
       \<or> snd (strtoll 0 (join_with TAB (drop (nat (bc conf) - 1) fs) @ [NUL])) \<noteq> 0"
  shows "alt_seen svl (if sc conf = 4 \<or> bc conf = 4 then 0 else 1) as
           (snd (parse_line svl conf stack rep ws (tsv fs)))"
proof -
  define n0 :: int where "n0 = (if sc conf = 4 \<or> bc conf = 4 then 0 else 1)"
  define R where "R = alt_seen svl n0 as"
  define P where "P = (\<lambda>k (st :: parse_state). field_id st = 1 + int k
      \<and> (k \<le> 4 \<longrightarrow> alcnt st = (if k = 4 then n0 else 0) \<and> \<not> use_svlen st \<and> \<not> getlen st)
      \<and> (5 \<le> k \<longrightarrow> R st))"
  define QR where "QR = (\<lambda>st :: parse_state. (5 < field_id st \<longrightarrow> R st)
      \<and> snd (strtoll 0 (join_with TAB (drop (nat (bc conf) - 1) fs) @ [NUL])) = 0)"
  define st0 where "st0 = init_state (kstring (tsv fs)) stack rep ws"
  have ne: "fs \<noteq> []" using cols(1) by auto
  have nul: "\<forall>a \<in> set as. CHR '','' \<notin> set a \<and> NUL \<notin> set a"
  proof
    fix a assume a: "a \<in> set as"
    have "NUL \<notin> set (fs ! 4)" using plain cols(1) by (simp add: plain_field_def)
    then have "NUL \<notin> set a" using set_join_with [OF a, of "CHR '',''"] alt(1) by auto
    then show "CHR '','' \<notin> set a \<and> NUL \<notin> set a" using alt(3) a by simp
  qed
  have Rframe: "R st'" if "R st" "alcnt st' = alcnt st" "use_svlen st' = use_svlen st"
    "getlen st' = getlen st" for st st' :: parse_state
    using that by (simp add: R_def alt_seen_def)
  have out: "case fields_loop svl conf (drop 0 fs) st0 of
           Continue st' \<Rightarrow> P (length fs) st' | Break st' \<Rightarrow> R st'
         | Return r st' \<Rightarrow> r = - 1 \<and> QR st'"
  proof (rule fields_loop_outcome [where P = P and QB = R and QR = QR, OF plain])
    show "P 0 st0" by (simp add: P_def st0_def init_state_def)
    show "field_id st0 = 1 + int 0" by (simp add: st0_def init_state_def)
    show "0 < length fs \<longrightarrow> drop (field_b st0) (line st0) = join_with TAB (drop 0 fs) @ [NUL]"
      by (simp add: st0_def init_state_def kstring_def tsv_def)
    show "0 \<le> length fs" by simp
  next
    fix k and st :: parse_state
    assume a: "P k st" "k < length fs" "field_id st = 1 + int k"
      "drop (field_b st) (line st) = join_with TAB (drop k fs) @ [NUL]"
    let ?i = "field_b st + length (fs ! k)"
    define out where "out = handle_field svl conf ?i st"
    have fid: "field_id (flow_state out) = field_id st"
      by (simp add: out_def handle_field_frame)
    have flags: "use_svlen (flow_state out) = use_svlen st" "getlen (flow_state out) = getlen st"
      "alcnt (flow_state out) = (if field_id st = 4 \<and> sc conf \<noteq> 4 \<and> bc conf \<noteq> 4
            then alcnt st + 1 else alcnt st)" if "k \<noteq> 4"
      using that a(3) handle_field_flags [of st conf svl ?i] tag by (simp_all add: out_def)
    have main: "P (Suc k) ((flow_state out)\<lparr>field_b := ?i + 1, field_id := field_id (flow_state out) + 1\<rparr>)
        \<and> (5 \<le> k \<longrightarrow> R (flow_state out))"
    proof (cases "k = 4")
      case False
      have "R (flow_state out)" if "5 \<le> k"
      proof (rule Rframe [of st])
        show "R st" using that a(1) by (simp add: P_def)
      qed (use that a(3) flags False in simp_all)
      moreover have "alcnt (flow_state out) = (if Suc k = 4 then n0 else 0)
          \<and> \<not> use_svlen (flow_state out) \<and> \<not> getlen (flow_state out)" if "Suc k \<le> 4"
        using that a(1,3) flags False by (auto simp: P_def n0_def)
      ultimately show ?thesis
        using a(3) fid False by (auto simp: P_def R_def alt_seen_def)
    next
      case True
      have st: "alcnt st = n0" "\<not> use_svlen st" "\<not> getlen st"
        using a(1) True by (simp_all add: P_def)
      have "drop k fs \<noteq> []" using a(2) by simp
      from join_with_field [OF this] obtain c rest where
        c: "join_with TAB (drop k fs) @ [NUL] = hd (drop k fs) @ c # rest" by blast
      have hd: "hd (drop k fs) = fs ! 4" using a(2) True by (simp add: hd_drop_conv_nth)
      have dr: "drop (field_b st) (line st) = join_with (CHR '','') as @ c # rest"
        using a(4) c by (simp add: hd alt(1))
      have i: "?i = field_b st + length (join_with (CHR '','') as)"
        by (simp add: True alt(1))
      have o: "out = Continue (alt_column svl ?i st)"
        unfolding out_def using a(3) True cols by (intro handle_field_alt [OF tag]) simp_all
      define st1 where "st1 = st\<lparr>svlenals := (svlenals st)(0 := 0)\<rparr>"
      have col: "alt_column svl ?i st = alt_alleles svl as 0 st1"
        unfolding st1_def by (rule alt_column_alleles [OF dr alt(2) nul i])
      have n: "0 \<le> alcnt st1" "alcnt st1 < 65536" "alcnt st1 = n0" "\<not> use_svlen st1" "\<not> getlen st1"
        using st by (simp_all add: st1_def n0_def)
      have "R (alt_alleles svl as 0 st1)"
        using alt_alleles_limit(1-3) [OF alt(2) n(1,2), of svl 0] n(3-5)
        by (simp add: R_def alt_seen_def list_ex_iff)
      moreover have "field_id (alt_alleles svl as 0 st1) = field_id st"
        using alt_column_frame(6) [of svl ?i st] by (simp add: col)
      moreover note col4 = col [unfolded True]
      moreover have "R (X\<lparr>field_b := b, field_id := j\<rparr>) = R X" for X :: parse_state and b j
        by (simp add: R_def alt_seen_def)
      ultimately show ?thesis
        using a(3) True by (simp add: o col4 P_def)
    qed
    show "case handle_field svl conf ?i st of
              Continue st' \<Rightarrow> P (Suc k) (st'\<lparr>field_b := ?i + 1, field_id := field_id st' + 1\<rparr>)
            | Break st' \<Rightarrow> R st'
            | Return r st' \<Rightarrow> QR st'"
    proof (cases out)
      case (Continue st')
      then show ?thesis using main by (simp add: out_def [symmetric])
    next
      case (Break st')
      have "field_id st = 9"
        using handle_field_vcf_break [OF tag, of svl ?i st st'] Break by (simp add: out_def)
      then have "5 \<le> k" using a(3) by simp
      then show ?thesis using main Break by (simp add: out_def [symmetric])
    next
      case (Return r st')
      have b: "field_id st = bc conf" "snd (strtoll 0 (drop (field_b st) (line st))) = 0"
        using handle_field_vcf_return [OF tag, of svl ?i st r st'] Return by (simp_all add: out_def)
      have "nat (bc conf) - 1 = k" using b(1) a(3) by simp
      then have "snd (strtoll 0 (join_with TAB (drop (nat (bc conf) - 1) fs) @ [NUL])) = 0"
        using b(2) a(4) by simp
      moreover have "5 < field_id st' \<longrightarrow> R st'"
        using main Return fid a(3) by (auto simp: out_def [symmetric])
      ultimately show ?thesis using Return by (simp add: out_def [symmetric] QR_def)
    qed
  qed
  have pl: "parse_line svl conf stack rep ws (tsv fs) =
     (case fields_loop svl conf fs st0 of
        Return r st \<Rightarrow> (r, st) | Break st \<Rightarrow> finish conf st | Continue st \<Rightarrow> finish conf st)"
    unfolding st0_def by (rule parse_line_fields [OF plain ne])
  have fin: "R (snd (finish conf st))" if "R st" for st
    by (rule Rframe [OF that]) (use tag in \<open>simp_all add: finish_def Let_def vcf_end_def\<close>)
  show ?thesis
  proof (cases "fields_loop svl conf fs st0")
    case (Continue st)
    then have "R st" using out cols(1) by (simp add: P_def)
    then show ?thesis using fin Continue by (simp add: pl R_def n0_def)
  next
    case (Break st)
    then have "R st" using out by simp
    then show ?thesis using fin Break by (simp add: pl R_def n0_def)
  next
    case (Return r st)
    then have "r = - 1" "QR st" using out by simp_all
    then have "R st" using reached Return by (auto simp: pl QR_def)
    then show ?thesis using Return by (simp add: pl R_def n0_def)
  qed
qed


section \<open>C8: how many ALT alleles are examined\<close>

lemma join_with_chars: "set (join_with c as) \<subseteq> insert c (\<Union> (set ` set as))"
  by (induction c as rule: join_with.induct) auto

lemma strtoll_100: "strtoll 0 (''100'' @ TAB # rest) = (100, 3)"
  by (simp add: strtoll_def Let_def isspace_def hex_prefix_def digit_val_def TAB_def saturate_def)

text \<open>
  C8 as stated fails when column 4 is the sequence column of a VCF-preset configuration: the
  count then starts at 0, not 1, and 65536 alleles are examined. Here the ALT column holds
  65535 times \<^verbatim>\<open>A\<close> and then \<^verbatim>\<open><DEL>\<close>: all 65536 are counted, and the flag that a symbolic
  allele has been seen is set.
\<close>

theorem alt_65536_counterexample:
  "alcnt (snd (parse_line symbolic_alt
       \<lparr>preset = TBX_VCF, sc = 4, bc = 2, ec = 0, meta_char = 35, line_skip = 0\<rparr> (\<lambda>_. 0) False []
       (tsv [''1'', ''100'', ''.'', ''chr1'',
             join_with (CHR '','') (replicate 65535 ''A'' @ [''<DEL>''])]))) = 65536
   \<and> use_svlen (snd (parse_line symbolic_alt
       \<lparr>preset = TBX_VCF, sc = 4, bc = 2, ec = 0, meta_char = 35, line_skip = 0\<rparr> (\<lambda>_. 0) False []
       (tsv [''1'', ''100'', ''.'', ''chr1'',
             join_with (CHR '','') (replicate 65535 ''A'' @ [''<DEL>''])])))"
proof -
  define as where "as = replicate 65535 ''A'' @ [''<DEL>'']"
  define alt where "alt = join_with (CHR '','') as"
  define conf where "conf = \<lparr>preset = TBX_VCF, sc = 4, bc = 2, ec = 0, meta_char = 35, line_skip = 0\<rparr>"
  define fs where "fs = [''1'', ''100'', ''.'', ''chr1'', alt]"
  have tag: "preset_tag conf = TBX_VCF"
    by (simp add: conf_def preset_tag_def TBX_VCF_def)
  have chars: "set alt \<subseteq> {CHR '','', CHR ''A'', CHR ''<'', CHR ''D'', CHR ''E'', CHR ''L'', CHR ''>''}"
    using join_with_chars [of "CHR '',''" as] by (auto simp: alt_def as_def)
  have "plain_field alt"
    using chars by (auto simp: plain_field_def TAB_def NUL_def)
  then have plain: "\<forall>f \<in> set fs. plain_field f"
    by (simp add: fs_def plain_field_def TAB_def NUL_def)
  have ne: "as \<noteq> []" by (simp add: as_def)
  have nc: "\<forall>a \<in> set as. CHR '','' \<notin> set a" by (auto simp: as_def)
  have len: "length as = 65536" by (simp add: as_def)
  have conv: "snd (strtoll 0 (join_with TAB (drop (nat (bc conf) - 1) fs) @ [NUL])) \<noteq> 0"
    using strtoll_100 by (simp add: conf_def fs_def)
  have "alt_seen symbolic_alt (if sc conf = 4 \<or> bc conf = 4 then 0 else 1) as
          (snd (parse_line symbolic_alt conf (\<lambda>_. 0) False [] (tsv fs)))"
    using conv by (intro vcf_alt_outcome [OF tag plain _ _ _ _ ne nc]) (simp_all add: fs_def conf_def alt_def)
  then have seen: "alt_seen symbolic_alt 0 as (snd (parse_line symbolic_alt conf (\<lambda>_. 0) False [] (tsv fs)))"
    by (simp add: conf_def)
  have "symbolic_alt ''<DEL>''" by (simp add: symbolic_alt_def)
  then have "list_ex symbolic_alt (take (nat 65536) as)"
    by (simp add: len as_def list_ex_iff)
  then have "alcnt (snd (parse_line symbolic_alt conf (\<lambda>_. 0) False [] (tsv fs))) = 65536"
    "use_svlen (snd (parse_line symbolic_alt conf (\<lambda>_. 0) False [] (tsv fs)))"
    using seen by (simp_all add: alt_seen_def len)
  then show ?thesis by (simp add: conf_def fs_def alt_def as_def)
qed

text \<open>
  C8 (amended): when \<^verbatim>\<open>tbx_parse1\<close> scans the ALT column (column 5, neither the sequence nor the
  begin column) of a VCF-preset line, the comma-separated alleles are counted and examined
  for symbolic-allele and gVCF status up to a count of 65536, the REF column included: at
  most 65535 ALT alleles when column 4 has been counted as REF (it is neither the sequence
  nor the begin column, as with the VCF preset's own columns), at most 65536 otherwise. The
  alleles beyond are ignored, and the column never makes the call fail. The scan has taken
  place when the call returns 0, when it has gone past column 5, or when the begin column
  holds a number.
\<close>

theorem alt_alleles_examined:
  assumes "preset_tag conf = TBX_VCF" and "\<forall>f \<in> set fs. plain_field f"
    and "5 \<le> length fs" "sc conf \<noteq> 5" "bc conf \<noteq> 5"
    and "fs ! 4 = join_with (CHR '','') as" "as \<noteq> []" "\<forall>a \<in> set as. CHR '','' \<notin> set a"
    and "fst (parse_line svl conf stack rep ws (tsv fs)) = 0
       \<or> 5 < field_id (snd (parse_line svl conf stack rep ws (tsv fs)))
       \<or> snd (strtoll 0 (join_with TAB (drop (nat (bc conf) - 1) fs) @ [NUL])) \<noteq> 0"
  shows "alt_seen svl (if sc conf = 4 \<or> bc conf = 4 then 0 else 1) as
           (snd (parse_line svl conf stack rep ws (tsv fs)))
       \<and> (field_id st0 = 5 \<longrightarrow> handle_field svl conf i st0 = Continue (alt_column svl i st0))"
proof
  show "alt_seen svl (if sc conf = 4 \<or> bc conf = 4 then 0 else 1) as
           (snd (parse_line svl conf stack rep ws (tsv fs)))"
    by (rule vcf_alt_outcome [OF assms])
  show "field_id st0 = 5 \<longrightarrow> handle_field svl conf i st0 = Continue (alt_column svl i st0)"
    using handle_field_alt [OF assms(1) _ assms(4,5)] by simp
qed

theorem alt_alleles_examined_witness:
  "fst (parse_line symbolic_alt tbx_conf_vcf (\<lambda>_. 0) False []
      (tsv [''chr1'', ''100'', ''.'', ''A'', ''T,<DEL>,<*>'', ''.'', ''.'', ''SVLEN=.,-50,.''])) = 0
   \<and> join_with (CHR '','') [''T'', ''<DEL>'', ''<*>''] = ''T,<DEL>,<*>''
   \<and> alcnt (snd (parse_line symbolic_alt tbx_conf_vcf (\<lambda>_. 0) False []
      (tsv [''chr1'', ''100'', ''.'', ''A'', ''T,<DEL>,<*>'', ''.'', ''.'', ''SVLEN=.,-50,.'']))) = 4
   \<and> use_svlen (snd (parse_line symbolic_alt tbx_conf_vcf (\<lambda>_. 0) False []
      (tsv [''chr1'', ''100'', ''.'', ''A'', ''T,<DEL>,<*>'', ''.'', ''.'', ''SVLEN=.,-50,.''])))
   \<and> getlen (snd (parse_line symbolic_alt tbx_conf_vcf (\<lambda>_. 0) False []
      (tsv [''chr1'', ''100'', ''.'', ''A'', ''T,<DEL>,<*>'', ''.'', ''.'', ''SVLEN=.,-50,.''])))"
proof -
  define fs where
    "fs = [''chr1'', ''100'', ''.'', ''A'', ''T,<DEL>,<*>'', ''.'', ''.'', ''SVLEN=.,-50,.'']"
  define as where "as = [''T'', ''<DEL>'', ''<*>'']"
  define r where "r = parse_line symbolic_alt tbx_conf_vcf (\<lambda>_. 0) False [] (tsv fs)"
  have ok: "fst r = 0" unfolding r_def fs_def by code_simp
  have tag: "preset_tag tbx_conf_vcf = TBX_VCF" by code_simp
  have plain: "\<forall>f \<in> set fs. plain_field f" unfolding fs_def by code_simp
  have cols: "5 \<le> length fs" "sc tbx_conf_vcf \<noteq> 5" "bc tbx_conf_vcf \<noteq> 5"
    by (simp_all add: fs_def tbx_conf_vcf_def)
  have j: "join_with (CHR '','') as = ''T,<DEL>,<*>''" by (simp add: as_def)
  have alt: "fs ! 4 = join_with (CHR '','') as" unfolding j by (simp add: fs_def)
  have ne: "as \<noteq> []" by (simp add: as_def)
  have nc: "\<forall>a \<in> set as. CHR '','' \<notin> set a" by (simp add: as_def)
  have "alt_seen symbolic_alt (if sc tbx_conf_vcf = 4 \<or> bc tbx_conf_vcf = 4 then 0 else 1) as (snd r)"
    using alt_alleles_examined [OF tag plain cols alt ne nc, of symbolic_alt "\<lambda>_. 0" False "[]"] ok
    by (simp add: r_def)
  then have "alt_seen symbolic_alt 1 as (snd r)" by (simp add: tbx_conf_vcf_def)
  then have "alcnt (snd r) = 4" "use_svlen (snd r)" "getlen (snd r)"
    by (simp_all add: alt_seen_def as_def symbolic_alt_def gvcf_allele_def)
  with ok j show ?thesis by (simp add: r_def fs_def as_def)
qed


end
